theory Spec2Isabelle
  imports Main
begin

section \<open>Bytes, buffers and records\<close>

text \<open>
  The model of \<^verbatim>\<open>markdown.c\<close>. A C \<^verbatim>\<open>char\<close> is a \<^typ>\<open>char\<close>; the bytes
  \<^verbatim>\<open>data[0 .. size)\<close> of a \<^verbatim>\<open>struct buf\<close> are a \<^typ>\<open>string\<close>. Offsets of type
  \<^verbatim>\<open>size_t\<close> are natural numbers: every offset of the source stays below the buffer
  size plus three, so no wrap-around is reachable. Allocation in the buffer and array
  utilities (which are external to \<^verbatim>\<open>markdown.c\<close>) is taken to succeed, so every
  buffer pointer that \<^verbatim>\<open>bufnew\<close> returns is not null.

  Names are those of the source, but for \<^verbatim>\<open>end\<close> and \<^verbatim>\<open>size\<close>, which are written
  \<open>en\<close> and \<open>sz\<close>, and for the two callbacks of the renderer, which are written
  \<open>paragraph_cb\<close> and \<open>blockquote_cb\<close>. A function that writes to a buffer returns the
  buffer, and a loop is a recursive function from the state at the loop head to the
  state after the loop.
\<close>

abbreviation LF :: char where "LF \<equiv> CHR 0x0A"

abbreviation CR :: char where "CR \<equiv> CHR 0x0D"

abbreviation TAB :: char where "TAB \<equiv> CHR 0x09"

abbreviation SP :: char where "SP \<equiv> CHR 0x20"

abbreviation SQUOTE :: char where "SQUOTE \<equiv> CHR 0x27"

abbreviation DQUOTE :: char where "DQUOTE \<equiv> CHR 0x22"

text \<open>\<^verbatim>\<open>struct link_ref\<close>: the title pointer is null when there is no title.\<close>

record link_ref =
  lr_id :: string
  lr_link :: string
  lr_title :: "string option"

text \<open>
  \<^verbatim>\<open>struct mkd_renderer\<close>: two callbacks, each taking the output buffer and a possibly
  null pointer to the inner text, and returning the output buffer after its appends.
\<close>

record mkd_renderer =
  paragraph_cb :: "string \<Rightarrow> string option \<Rightarrow> string"
  blockquote_cb :: "string \<Rightarrow> string option \<Rightarrow> string"

section \<open>The XHTML renderer\<close>

definition xhtml_paragraph :: "string \<Rightarrow> string option \<Rightarrow> string" where
  "xhtml_paragraph ob text =
     (let ob = (if ob \<noteq> [] then ob @ [LF] else ob);
          ob = ob @ ''<p>'';
          ob = (case text of Some t \<Rightarrow> ob @ t | None \<Rightarrow> ob)
      in ob @ ''</p>'' @ [LF])"

definition xhtml_blockquote :: "string \<Rightarrow> string option \<Rightarrow> string" where
  "xhtml_blockquote ob text =
     (let ob = (if ob \<noteq> [] then ob @ [LF] else ob);
          ob = ob @ ''<blockquote>'' @ [LF];
          ob = (case text of Some t \<Rightarrow> ob @ t | None \<Rightarrow> ob)
      in ob @ ''</blockquote>'' @ [LF])"

definition mkd_xhtml :: mkd_renderer where
  "mkd_xhtml = \<lparr> paragraph_cb = xhtml_paragraph, blockquote_cb = xhtml_blockquote \<rparr>"

section \<open>The reference scanner\<close>

text \<open>
  The forward scanning loops of the source all have the shape
  \<^verbatim>\<open>while (i < end && P(data[i])) i += 1;\<close> and are instances of \<open>scan\<close>.
\<close>

function scan :: "(char \<Rightarrow> bool) \<Rightarrow> string \<Rightarrow> nat \<Rightarrow> nat \<Rightarrow> nat" where
  "scan P data i en = (if i < en \<and> P (data ! i) then scan P data (i + 1) en else i)"
  by pat_completeness auto
termination
  by (relation "measure (\<lambda>(P, data, i, en). en - i)") auto

declare scan.simps [simp del]

definition blank :: "char \<Rightarrow> bool" where
  "blank c = (c = SP \<or> c = TAB)"

definition not_eol :: "char \<Rightarrow> bool" where
  "not_eol c = (c \<noteq> LF \<and> c \<noteq> CR)"

text \<open>Line 82: \<^verbatim>\<open>while (i < beg + 3 && i < end && data[i] == ' ') i += 1;\<close>\<close>

function lead_spaces :: "string \<Rightarrow> nat \<Rightarrow> nat \<Rightarrow> nat \<Rightarrow> nat" where
  "lead_spaces data beg en i =
     (if i < beg + 3 \<and> i < en \<and> data ! i = SP then lead_spaces data beg en (i + 1) else i)"
  by pat_completeness auto
termination
  by (relation "measure (\<lambda>(data, beg, en, i). en - i)") auto

declare lead_spaces.simps [simp del]

text \<open>Lines 143-144: the walk back over the blanks before the end of the title line.\<close>

function back_blank :: "string \<Rightarrow> nat \<Rightarrow> nat \<Rightarrow> nat" where
  "back_blank data title_offset i =
     (if i > title_offset \<and> (data ! i = SP \<or> data ! i = TAB)
      then back_blank data title_offset (i - 1) else i)"
  by pat_completeness auto
termination
  by (relation "measure (\<lambda>(data, title_offset, i). i)") auto

declare back_blank.simps [simp del]

text \<open>
  Lines 118-163 of \<open>is_ref\<close>: the end of the line, the optional title and the record.
  \<open>i\<close> is the offset after the blanks that follow the link. The result is \<open>None\<close> for
  \<^verbatim>\<open>return 0\<close>, and otherwise the value stored into \<^verbatim>\<open>*last\<close> with the record
  appended to \<^verbatim>\<open>refs\<close>.
\<close>

definition ref_tail ::
  "string \<Rightarrow> nat \<Rightarrow> nat \<Rightarrow> nat \<Rightarrow> nat \<Rightarrow> nat \<Rightarrow> nat \<Rightarrow> (nat \<times> link_ref) option" where
  "ref_tail data en id_offset id_end link_offset link_end i =
    (let line_end = (0::nat);
         line_end = (if i \<ge> en \<or> data ! i = CR \<or> data ! i = LF then i else line_end);
         line_end = (if i + 1 < en \<and> data ! i = LF \<and> data ! (i + 1) = CR
                     then i + 1 else line_end);
         i = (if line_end \<noteq> 0 then scan blank data (line_end + 1) en else i);
         (title_offset, title_end, line_end) =
           (if i + 1 < en \<and> (data ! i = SQUOTE \<or> data ! i = DQUOTE \<or> data ! i = CHR ''('')
            then
              let i = i + 1;
                  title_offset = i;
                  i = scan not_eol data i en;
                  title_end = (if i + 1 < en \<and> data ! i = LF \<and> data ! (i + 1) = CR
                               then i + 1 else i);
                  i = i - 1;
                  i = back_blank data title_offset i
              in if i > title_offset
                    \<and> (data ! i = SQUOTE \<or> data ! i = DQUOTE \<or> data ! i = CHR '')'')
                 then (title_offset, i, title_end)
                 else (title_offset, title_end, line_end)
            else (0, 0, line_end))
     in if line_end = 0 then None
        else Some (line_end,
               \<lparr> lr_id = take (id_end - id_offset) (drop id_offset data),
                 lr_link = take (link_end - link_offset) (drop link_offset data),
                 lr_title = (if title_end > title_offset
                             then Some (take (title_end - title_offset) (drop title_offset data))
                             else None) \<rparr>))"

text \<open>Lines 72-117 of \<open>is_ref\<close>, continued by \<open>ref_tail\<close>.\<close>

definition is_ref :: "string \<Rightarrow> nat \<Rightarrow> nat \<Rightarrow> (nat \<times> link_ref) option" where
  "is_ref data beg en =
    (let i = lead_spaces data beg en beg in
     if i \<ge> en \<or> i \<ge> beg + 3 then None
     else if data ! i \<noteq> CHR ''['' then None
     else
       let i = i + 1;
           id_offset = i;
           i = scan (\<lambda>c. c \<noteq> LF \<and> c \<noteq> CR \<and> c \<noteq> CHR '']'') data i en
       in
       if i \<ge> en \<or> data ! i \<noteq> CHR '']'' then None
       else
         let id_end = i;
             i = i + 1
         in
         if i \<ge> en \<or> data ! i \<noteq> CHR '':'' then None
         else
           let i = i + 1;
               i = scan blank data i en;
               i = (if i < en \<and> (data ! i = LF \<or> data ! i = CR)
                    then (let i = i + 1
                          in if i < en \<and> data ! i = CR \<and> data ! (i - 1) = LF
                             then i + 1 else i)
                    else i);
               i = scan blank data i en
           in
           if i \<ge> en then None
           else
             let i = (if data ! i = CHR ''<'' then i + 1 else i);
                 link_offset = i;
                 i = scan (\<lambda>c. c \<noteq> SP \<and> c \<noteq> TAB \<and> c \<noteq> LF \<and> c \<noteq> CR) data i en;
                 link_end = (if data ! (i - 1) = CHR ''>'' then i - 1 else i);
                 i = scan blank data i en
             in
             if i < en \<and> data ! i \<noteq> LF \<and> data ! i \<noteq> CR
                \<and> data ! i \<noteq> SQUOTE \<and> data ! i \<noteq> DQUOTE \<and> data ! i \<noteq> CHR ''(''
             then None
             else ref_tail data en id_offset id_end link_offset link_end i)"

section \<open>The first pass\<close>

text \<open>
  Lines 288-295 of \<open>markdown\<close>: the run of line terminators after a line body. \<open>ib\<close> is
  the input buffer, whose size is its length; the result is the text buffer and the
  offset after the run.
\<close>

function newline_run :: "string \<Rightarrow> nat \<Rightarrow> string \<Rightarrow> string \<times> nat" where
  "newline_run ib en text =
     (if en < length ib \<and> (ib ! en = LF \<or> ib ! en = CR) then
        newline_run ib (en + 1)
          (if ib ! en = LF \<or> (en + 1 < length ib \<and> ib ! (en + 1) \<noteq> LF)
           then text @ [LF] else text)
      else (text, en))"
  by pat_completeness auto
termination
  by (relation "measure (\<lambda>(ib, en, text). length ib - en)") auto

declare newline_run.simps [simp del]

text \<open>
  Every round of the loop of the first pass moves forward: \<open>is_ref\<close> reports an offset
  after \<open>beg\<close>, and a line that is no reference has a body or a line terminator.
\<close>

lemma scan_ge: "i \<le> scan P data i en"
proof (induction P data i en rule: scan.induct)
  case (1 P data i en)
  then show ?case by (subst scan.simps) (auto simp: Suc_leD)
qed

lemma scan_le: "i \<le> en \<Longrightarrow> scan P data i en \<le> en"
proof (induction P data i en rule: scan.induct)
  case (1 P data i en)
  then show ?case by (subst scan.simps) auto
qed

lemma scan_gt: "i < en \<Longrightarrow> P (data ! i) \<Longrightarrow> i < scan P data i en"
  using scan_ge [of "i + 1" P data en] by (subst scan.simps) simp

lemma scan_less_trans: "j < k \<Longrightarrow> j < scan P data k en"
  using scan_ge [of k P data en] by simp

lemma newline_run_ge: "en \<le> snd (newline_run ib en tx)"
proof (induction ib en tx rule: newline_run.induct)
  case (1 ib en tx)
  then show ?case by (subst newline_run.simps) (auto simp: Suc_leD)
qed

lemma newline_run_gt:
  "en < length ib \<Longrightarrow> ib ! en = LF \<or> ib ! en = CR \<Longrightarrow> en < snd (newline_run ib en tx)"
  using newline_run_ge [of "en + 1" ib] by (subst newline_run.simps) (auto simp: Suc_le_eq)

lemma lead_spaces_ge: "i \<le> lead_spaces data beg en i"
proof (induction data beg en i rule: lead_spaces.induct)
  case (1 data beg en i)
  then show ?case by (subst lead_spaces.simps) (auto simp: Suc_leD)
qed

lemma ref_tail_last:
  assumes "ref_tail data en io ie lo le i = Some (l, lr)"
  shows "i \<le> l"
proof -
  have a: "\<And>j. j + 1 \<le> scan not_eol data (j + 1) en" by (rule scan_ge)
  show ?thesis
    using assms a [of "scan blank data (i + 1 + 1) en"] a [of "scan blank data (i + 1) en"] a [of i]
      scan_ge [of "i + 1 + 1" blank data en] scan_ge [of "i + 1" blank data en]
    unfolding ref_tail_def Let_def
    by (auto split: if_splits prod.splits)
qed

lemma is_ref_last:
  assumes "is_ref data beg en = Some (l, lr)"
  shows "beg < l"
proof -
  have lg: "beg < lead_spaces data beg en beg + 1"
    using lead_spaces_ge [of beg data beg en] by simp
  show ?thesis
    using assms
    unfolding is_ref_def Let_def
    by (auto split: if_splits dest!: ref_tail_last
        elim!: less_le_trans [rotated] intro!: scan_less_trans less_SucI lg [simplified])
qed

lemma line_step_gt:
  assumes "beg < length ib"
  shows "beg < snd (newline_run ib (scan not_eol ib beg (length ib)) t)"
proof (cases "not_eol (ib ! beg)")
  case True
  then have "beg < scan not_eol ib beg (length ib)" using assms by (intro scan_gt)
  then show ?thesis
    using newline_run_ge [of "scan not_eol ib beg (length ib)" ib t] by simp
next
  case False
  then have e: "scan not_eol ib beg (length ib) = beg" by (subst scan.simps) simp
  show ?thesis
    unfolding e using False assms by (intro newline_run_gt) (auto simp: not_eol_def)
qed

text \<open>
  Lines 277-296 of \<open>markdown\<close>: the loop over the lines of the input. A reference line
  adds its record to the table and moves to the offset \<open>is_ref\<close> reports; any other line is
  copied up to its terminator, followed by the line feeds of \<open>newline_run\<close>.
\<close>

function first_pass :: "string \<Rightarrow> nat \<Rightarrow> string \<Rightarrow> link_ref list \<Rightarrow> string \<times> link_ref list" where
  "first_pass ib beg text refs =
     (if beg < length ib then
        (case is_ref ib beg (length ib) of
           Some (en, lr) \<Rightarrow> first_pass ib en text (refs @ [lr])
         | None \<Rightarrow>
             let en = scan not_eol ib beg (length ib);
                 text = (if en > beg then text @ take (en - beg) (drop beg ib) else text);
                 (text, en) = newline_run ib en text
             in first_pass ib en text refs)
      else (text, refs))"
  by pat_completeness auto
termination
proof (relation "measure (\<lambda>(ib, beg, tx, refs). length ib - beg)", goal_cases)
  case 1
  show ?case by simp
next
  case (2 ib beg tx refs x xa xb xc y)
  have "y = snd (newline_run ib x xa)" using 2(5,6) by (metis snd_conv)
  then have "beg < y" using line_step_gt [OF 2(1), of xa] 2(3) by simp
  then show ?case using 2(1) by simp
next
  case (3 ib beg tx refs x2 x y)
  then show ?case using is_ref_last [of ib beg "length ib" x y] by simp
qed

declare first_pass.simps [simp del]

section \<open>Lines, blank lines and quote prefixes\<close>

text \<open>
  The block parser works in place on the cleaned text. The store \<open>mem\<close> is the byte array
  of that buffer, a pointer into it is its offset, and a region is a pointer \<open>data\<close> with a
  size \<open>sz\<close>: \<^verbatim>\<open>data[i]\<close> is \<open>mem ! (data + i)\<close>.
\<close>

text \<open>Lines 167-172.\<close>

function is_empty_loop :: "string \<Rightarrow> nat \<Rightarrow> nat \<Rightarrow> nat \<Rightarrow> bool" where
  "is_empty_loop mem data sz i =
     (if i < sz \<and> mem ! (data + i) \<noteq> LF then
        (if mem ! (data + i) \<noteq> SP \<and> mem ! (data + i) \<noteq> TAB then False
         else is_empty_loop mem data sz (i + 1))
      else True)"
  by pat_completeness auto
termination
  by (relation "measure (\<lambda>(mem, data, sz, i). sz - i)") auto

declare is_empty_loop.simps [simp del]

definition is_empty :: "string \<Rightarrow> nat \<Rightarrow> nat \<Rightarrow> bool" where
  "is_empty mem data sz = is_empty_loop mem data sz 0"

text \<open>Lines 176-186.\<close>

definition prefix_quote :: "string \<Rightarrow> nat \<Rightarrow> nat \<Rightarrow> nat" where
  "prefix_quote mem data sz =
     (let i = (0::nat);
          i = (if i < sz \<and> mem ! (data + i) = SP then i + 1 else i);
          i = (if i < sz \<and> mem ! (data + i) = SP then i + 1 else i);
          i = (if i < sz \<and> mem ! (data + i) = SP then i + 1 else i)
      in if i < sz \<and> mem ! (data + i) = CHR ''>'' then
           (if i + 1 < sz \<and> (mem ! (data + (i + 1)) = SP \<or> mem ! (data + (i + 1)) = TAB)
            then i + 2 else i + 1)
         else 0)"

text \<open>
  Lines 203-204 and 233-234:
  \<^verbatim>\<open>for (end = beg + 1; end < size && data[end - 1] != '\n'; end += 1);\<close>
  with \<open>en\<close> the running value of \<^verbatim>\<open>end\<close>, which is at least one.
\<close>

function line_end :: "string \<Rightarrow> nat \<Rightarrow> nat \<Rightarrow> nat \<Rightarrow> nat" where
  "line_end mem data sz en =
     (if en < sz \<and> mem ! (data + (en - 1)) \<noteq> LF then line_end mem data sz (en + 1) else en)"
  by pat_completeness auto
termination
  by (relation "measure (\<lambda>(mem, data, sz, en). sz - en)") auto

declare line_end.simps [simp del]

section \<open>The paragraph parser\<close>

lemma line_end_ge: "en \<le> line_end mem data sz en"
proof (induction mem data sz en rule: line_end.induct)
  case (1 mem data sz en)
  then show ?case by (subst line_end.simps) (auto simp: Suc_leD)
qed

lemma line_end_le: "en \<le> sz \<Longrightarrow> line_end mem data sz en \<le> sz"
proof (induction mem data sz en rule: line_end.induct)
  case (1 mem data sz en)
  then show ?case by (subst line_end.simps) auto
qed

text \<open>
  Lines 232-237: the loop of \<open>parse_paragraph\<close>, returning the final value of
  \<^verbatim>\<open>end\<close>.
\<close>

function para_loop :: "string \<Rightarrow> nat \<Rightarrow> nat \<Rightarrow> nat \<Rightarrow> nat \<Rightarrow> nat" where
  "para_loop mem data sz i en =
     (if i < sz then
        let en = line_end mem data sz (i + 1)
        in if is_empty mem (data + i) (sz - i) then en
           else para_loop mem data sz en en
      else en)"
  by pat_completeness auto
termination
proof (relation "measure (\<lambda>(mem, data, sz, i, en). sz - i)", goal_cases)
  case 1
  show ?case by simp
next
  case (2 mem data sz i en x)
  then show ?case using line_end_ge [of "i + 1" mem data sz] by simp
qed

declare para_loop.simps [simp del]

text \<open>Lines 240-241: trailing line feeds are cut from the view.\<close>

function trim_lf :: "string \<Rightarrow> nat \<Rightarrow> nat \<Rightarrow> nat" where
  "trim_lf mem data n =
     (if n \<noteq> 0 \<and> mem ! (data + (n - 1)) = LF then trim_lf mem data (n - 1) else n)"
  by pat_completeness auto
termination
  by (relation "measure (\<lambda>(mem, data, n). n)") auto

declare trim_lf.simps [simp del]

text \<open>
  Lines 226-243. The view \<^verbatim>\<open>work\<close> shares the bytes of the region; the callback gets
  its \<^verbatim>\<open>size\<close> first bytes. The result is the output buffer and the returned count.
\<close>

definition parse_paragraph ::
  "string \<Rightarrow> mkd_renderer \<Rightarrow> string \<Rightarrow> nat \<Rightarrow> nat \<Rightarrow> string \<times> nat" where
  "parse_paragraph ob rndr mem data sz =
     (let en = para_loop mem data sz 0 0;
          work_size = trim_lf mem data en;
          ob = paragraph_cb rndr ob (Some (take work_size (drop data mem)))
      in (ob, en))"

section \<open>The blockquote parser\<close>

text \<open>
  \<^verbatim>\<open>memmove(dst, src, n)\<close> on the store. The C call is defined only when both ranges
  lie inside the store; \<open>bq_loop\<close> logs every call it makes, so that this can be stated.
\<close>

definition memmove :: "string \<Rightarrow> nat \<Rightarrow> nat \<Rightarrow> nat \<Rightarrow> string" where
  "memmove mem dst src n = take dst mem @ take n (drop src mem) @ drop (dst + n) mem"

text \<open>
  Lines 211-218: the line \<open>data[beg .. en)\<close> joins the working buffer. The pointer
  \<^verbatim>\<open>work_data\<close> is \<open>None\<close> while it is null. \<open>moves\<close> is the log of the
  \<^verbatim>\<open>memmove\<close> calls so far, each as \<open>(dst, src, n)\<close>; the code has no such variable
  and nothing reads it.
\<close>

definition bq_copy ::
  "string \<Rightarrow> nat \<Rightarrow> nat \<Rightarrow> nat \<Rightarrow> nat option \<Rightarrow> nat \<Rightarrow> (nat \<times> nat \<times> nat) list
     \<Rightarrow> string \<times> nat option \<times> nat \<times> (nat \<times> nat \<times> nat) list" where
  "bq_copy mem data beg en work_data work_size moves =
     (if beg < en then
        (case work_data of
           None \<Rightarrow> (mem, Some (data + beg), work_size + (en - beg), moves)
         | Some w \<Rightarrow>
             if data + beg \<noteq> w + work_size
             then (memmove mem (w + work_size) (data + beg) (en - beg), Some w,
                   work_size + (en - beg), moves @ [(w + work_size, data + beg, en - beg)])
             else (mem, Some w, work_size + (en - beg), moves))
      else (mem, work_data, work_size, moves))"

lemma prefix_quote_le: "prefix_quote mem data sz \<le> sz"
  unfolding prefix_quote_def Let_def by (simp split: if_splits)

text \<open>
  Lines 202-219: the loop of \<open>parse_blockquote\<close>, from the state at the loop head to the
  state after the loop: the store, \<^verbatim>\<open>end\<close>, the working buffer and the log.
\<close>

function bq_loop ::
  "string \<Rightarrow> nat \<Rightarrow> nat \<Rightarrow> nat \<Rightarrow> nat \<Rightarrow> nat option \<Rightarrow> nat \<Rightarrow> (nat \<times> nat \<times> nat) list
     \<Rightarrow> string \<times> nat \<times> nat option \<times> nat \<times> (nat \<times> nat \<times> nat) list" where
  "bq_loop mem data sz beg en work_data work_size moves =
     (if beg < sz then
        let en = line_end mem data sz (beg + 1);
            pre = prefix_quote mem (data + beg) (en - beg)
        in
        if pre \<noteq> 0 then
          (let (mem, work_data, work_size, moves) =
                 bq_copy mem data (beg + pre) en work_data work_size moves
           in bq_loop mem data sz en en work_data work_size moves)
        else if is_empty mem (data + beg) (en - beg)
                \<and> (en \<ge> sz \<or> prefix_quote mem (data + en) (sz - en) = 0)
        then (mem, en, work_data, work_size, moves)
        else
          (let (mem, work_data, work_size, moves) =
                 bq_copy mem data beg en work_data work_size moves
           in bq_loop mem data sz en en work_data work_size moves)
      else (mem, en, work_data, work_size, moves))"
  by pat_completeness auto
termination
proof (relation "measure (\<lambda>(mem, data, sz, beg, en, wd, ws, mv). sz - beg)", goal_cases)
  case 1
  show ?case by simp
next
  case (2 mem data sz beg en wd ws mv e pre)
  then show ?case using line_end_ge [of "beg + 1" mem data sz] by simp
next
  case (3 mem data sz beg en wd ws mv e pre)
  then show ?case using line_end_ge [of "beg + 1" mem data sz] by simp
qed

declare bq_loop.simps [simp del]

section \<open>The block dispatcher\<close>

text \<open>
  The dispatcher and the blockquote parser call each other. The recursion ends because
  each sub-parser returns at least one on a region that is not empty, and because the
  working buffer of a region that starts with a quote prefix is shorter than the region:
  the prefix of its first line is not copied.
\<close>

lemma line_end_gt:
  "1 \<le> en \<Longrightarrow> en \<le> k + 1 \<Longrightarrow> k < sz \<Longrightarrow> \<forall>j\<le>k. mem ! (data + j) \<noteq> LF
     \<Longrightarrow> k < line_end mem data sz en"
proof (induction mem data sz en rule: line_end.induct)
  case (1 mem data sz en)
  show ?case
  proof (cases "en < sz \<and> mem ! (data + (en - 1)) \<noteq> LF")
    case True
    show ?thesis
    proof (cases "en + 1 \<le> k + 1")
      case le: True
      then show ?thesis using 1 True by (subst line_end.simps) simp
    next
      case False
      then show ?thesis
        using True line_end_ge [of "en + 1" mem data sz] by (subst line_end.simps) simp
    qed
  next
    case False
    have "en - 1 \<le> k" using 1(2,3) by simp
    then have "mem ! (data + (en - 1)) \<noteq> LF" using 1(5) by blast
    then have "sz \<le> en" using False by simp
    then show ?thesis using 1(3,4) by (subst line_end.simps) simp
  qed
qed

lemma prefix_quote_eq:
  assumes "i \<le> 3" "i < sz" "\<forall>j<i. mem ! (data + j) = SP" "mem ! (data + i) = CHR ''>''"
  shows "prefix_quote mem data sz =
     (if i + 1 < sz \<and> (mem ! (data + (i + 1)) = SP \<or> mem ! (data + (i + 1)) = TAB)
      then i + 2 else i + 1)"
proof -
  consider "i = 0" | "i = 1" | "i = 2" | "i = 3" using assms(1) by linarith
  then show ?thesis
  proof cases
    case 1
    then show ?thesis using assms unfolding prefix_quote_def Let_def by simp
  next
    case 2
    then show ?thesis using assms unfolding prefix_quote_def Let_def by simp
  next
    case 3
    have "mem ! (data + 0) = SP" "mem ! (data + 1) = SP"
      using assms(3) [rule_format, of 0] assms(3) [rule_format, of 1] 3 by simp_all
    then show ?thesis using 3 assms(2,4) unfolding prefix_quote_def Let_def
      by (simp add: eval_nat_numeral)
  next
    case 4
    have "mem ! (data + 0) = SP" "mem ! (data + 1) = SP" "mem ! (data + 2) = SP"
      using assms(3) [rule_format, of 0] assms(3) [rule_format, of 1]
        assms(3) [rule_format, of 2] 4 by simp_all
    then show ?thesis using 4 assms(2,4) unfolding prefix_quote_def Let_def
      by (simp add: eval_nat_numeral)
  qed
qed

lemma prefix_quote_cases:
  obtains (none) "prefix_quote mem data sz = 0"
  | (some) i where "i \<le> 3" "i < sz" "\<forall>j<i. mem ! (data + j) = SP"
      "mem ! (data + i) = CHR ''>''"
proof (cases "prefix_quote mem data sz = 0")
  case True
  then show ?thesis by (rule none)
next
  case False
  define a where "a = (if 0 < sz \<and> mem ! (data + 0) = SP then (1::nat) else 0)"
  define b where "b = (if a < sz \<and> mem ! (data + a) = SP then a + 1 else a)"
  define c where "c = (if b < sz \<and> mem ! (data + b) = SP then b + 1 else b)"
  have pq: "prefix_quote mem data sz =
      (if c < sz \<and> mem ! (data + c) = CHR ''>'' then
         (if c + 1 < sz \<and> (mem ! (data + (c + 1)) = SP \<or> mem ! (data + (c + 1)) = TAB)
          then c + 2 else c + 1)
       else 0)"
    unfolding prefix_quote_def Let_def a_def b_def c_def by simp
  have c: "c < sz" "mem ! (data + c) = CHR ''>''" using False pq by (auto split: if_splits)
  have h1: "c \<le> 3" unfolding a_def b_def c_def by simp
  have h2: "\<forall>j<c. mem ! (data + j) = SP"
    unfolding a_def b_def c_def by (auto simp: less_Suc_eq split: if_splits)
  show ?thesis by (rule some [OF h1 c(1) h2 c(2)])
qed

lemma prefix_quote_line:
  assumes "prefix_quote mem data sz \<noteq> 0"
  shows "prefix_quote mem data (line_end mem data sz 1) = prefix_quote mem data sz"
proof (cases mem data sz rule: prefix_quote_cases)
  case none
  then show ?thesis using assms by simp
next
  case (some i)
  define e where "e = line_end mem data sz 1"
  have le: "e \<le> sz" unfolding e_def using some(2) by (intro line_end_le) simp
  have "\<forall>j\<le>i. mem ! (data + j) \<noteq> LF" using some(3,4) by (auto simp: le_less)
  then have i: "i < e" unfolding e_def using some(2) by (intro line_end_gt) auto
  let ?b = "mem ! (data + (i + 1)) = SP \<or> mem ! (data + (i + 1)) = TAB"
  have b: "i + 1 < e" if "i + 1 < sz" ?b
  proof -
    have "\<forall>j\<le>i + 1. mem ! (data + j) \<noteq> LF"
      using some(3,4) that(2) by (auto simp: le_Suc_eq le_less less_Suc_eq)
    then show ?thesis unfolding e_def using that(1) by (intro line_end_gt) auto
  qed
  have "(i + 1 < e \<and> ?b) = (i + 1 < sz \<and> ?b)" using b le by auto
  then have "prefix_quote mem data e = prefix_quote mem data sz"
    by (simp only: prefix_quote_eq [OF some] prefix_quote_eq [OF some(1) i some(3,4)])
  then show ?thesis unfolding e_def .
qed

text \<open>
  The invariant of the loop: the working buffer, once started, begins at least \<open>k\<close> bytes
  into the region and ends at or before the line being read; and what a logged move must
  satisfy to stay inside the region \<open>data[0 .. sz)\<close>.
\<close>

definition bq_inv :: "nat \<Rightarrow> nat \<Rightarrow> nat \<Rightarrow> nat option \<Rightarrow> nat \<Rightarrow> bool" where
  "bq_inv data k b work_data work_size =
     (case work_data of None \<Rightarrow> work_size = 0
      | Some w \<Rightarrow> data + k \<le> w \<and> w + work_size \<le> data + b)"

definition move_ok :: "nat \<Rightarrow> nat \<Rightarrow> nat \<times> nat \<times> nat \<Rightarrow> bool" where
  "move_ok data sz m = (case m of (dst, src, n) \<Rightarrow> data \<le> dst \<and> dst \<le> src \<and> src + n \<le> data + sz)"

lemma bq_copy_inv:
  assumes "bq_copy mem data b' e wd ws mv = (mem', wd', ws', mv')"
    and "bq_inv data k b wd ws" "b \<le> b'" "k \<le> b'" "b' \<le> e" "e \<le> sz"
    and "list_all (move_ok data sz) mv"
  shows "bq_inv data k e wd' ws' \<and> list_all (move_ok data sz) mv'"
  using assms unfolding bq_copy_def bq_inv_def move_ok_def
  by (auto split: if_splits option.splits)

lemma bq_loop_inv:
  assumes "bq_loop mem data sz beg en wd ws mv = (mem', en', wd', ws', mv')"
    and "en = beg" "beg \<le> sz" "k \<le> beg" "bq_inv data k beg wd ws"
    and "list_all (move_ok data sz) mv"
  shows "beg \<le> en' \<and> en' \<le> sz \<and> (beg < sz \<longrightarrow> beg < en') \<and> bq_inv data k en' wd' ws'
     \<and> list_all (move_ok data sz) mv'"
  using assms
proof (induction mem data sz beg en wd ws mv rule: bq_loop.induct)
  case (1 mem data sz beg en wd ws mv)
  show ?case
  proof (cases "beg < sz")
    case False
    then have "bq_loop mem data sz beg en wd ws mv = (mem, en, wd, ws, mv)"
      by (subst bq_loop.simps) simp
    then show ?thesis using 1(3-) False unfolding bq_inv_def by (auto split: option.splits)
  next
    case True
    define e where "e = line_end mem data sz (beg + 1)"
    define pre where "pre = prefix_quote mem (data + beg) (e - beg)"
    have e: "beg < e" "e \<le> sz"
      using line_end_ge [of "beg + 1" mem data sz] line_end_le [of "beg + 1" sz mem data] True
      unfolding e_def by simp_all
    have e': "line_end mem data sz (Suc beg) = e" by (simp add: e_def)
    have pre': "prefix_quote mem (data + beg) (e - beg) = pre" by (simp add: pre_def)
    have pre: "beg + pre \<le> e" using prefix_quote_le [of mem "data + beg" "e - beg"] e
      unfolding pre_def by simp
    have inv: "bq_inv data k e wd ws"
      using 1(7) e(1) unfolding bq_inv_def by (auto split: option.splits)
    show ?thesis
    proof (cases "pre \<noteq> 0")
      case p: True
      obtain m1 wd1 ws1 mv1 where c: "bq_copy mem data (beg + pre) e wd ws mv = (m1, wd1, ws1, mv1)"
        by (metis prod_cases4)
      have l: "bq_loop mem data sz beg en wd ws mv = bq_loop m1 data sz e e wd1 ws1 mv1"
        using True p c by (subst bq_loop.simps) (simp add: e' pre')
      have ci: "bq_inv data k e wd1 ws1 \<and> list_all (move_ok data sz) mv1"
        using bq_copy_inv [OF c 1(7) _ _ pre e(2) 1(8)] 1(6) by simp
      have "e \<le> en' \<and> en' \<le> sz \<and> (e < sz \<longrightarrow> e < en') \<and> bq_inv data k en' wd' ws'
          \<and> list_all (move_ok data sz) mv'"
        using 1(3) l ci e 1(6)
        by (intro 1(1) [OF True e_def pre_def p c [symmetric] refl refl refl]) auto
      then show ?thesis using e 1(4,5) by auto
    next
      case p: False
      show ?thesis
      proof (cases "is_empty mem (data + beg) (e - beg)
                \<and> (e \<ge> sz \<or> prefix_quote mem (data + e) (sz - e) = 0)")
        case brk: True
        have "bq_loop mem data sz beg en wd ws mv = (mem, e, wd, ws, mv)"
          using True p brk
          by (subst bq_loop.simps) (simp add: e' pre')
        then show ?thesis using 1(3-) e inv by auto
      next
        case brk: False
        obtain m1 wd1 ws1 mv1 where c: "bq_copy mem data beg e wd ws mv = (m1, wd1, ws1, mv1)"
          by (metis prod_cases4)
        have l: "bq_loop mem data sz beg en wd ws mv = bq_loop m1 data sz e e wd1 ws1 mv1"
          using True p c brk
          by (subst bq_loop.simps) (auto simp add: e' pre')
        have ci: "bq_inv data k e wd1 ws1 \<and> list_all (move_ok data sz) mv1"
          using bq_copy_inv [OF c 1(7) _ _ _ e(2) 1(8)] 1(6) e(1) by simp
        have "e \<le> en' \<and> en' \<le> sz \<and> (e < sz \<longrightarrow> e < en') \<and> bq_inv data k en' wd' ws'
            \<and> list_all (move_ok data sz) mv'"
          using 1(3) l ci e 1(6) p brk
          by (intro 1(2) [OF True e_def pre_def _ _ c [symmetric] refl refl refl]) auto
        then show ?thesis using e 1(4,5) by auto
      qed
    qed
  qed
qed

lemma para_loop_bounds:
  "i < sz \<Longrightarrow> i < para_loop mem data sz i en \<and> para_loop mem data sz i en \<le> sz"
proof (induction mem data sz i en rule: para_loop.induct)
  case (1 mem data sz i en)
  define e where "e = line_end mem data sz (i + 1)"
  have e: "i < e" "e \<le> sz"
    using line_end_ge [of "i + 1" mem data sz] line_end_le [of "i + 1" sz mem data] 1(2)
    unfolding e_def by simp_all
  have e': "line_end mem data sz (Suc i) = e" by (simp add: e_def)
  show ?case
  proof (cases "is_empty mem (data + i) (sz - i)")
    case True
    then have "para_loop mem data sz i en = e"
      using 1(2) by (subst para_loop.simps) (simp add: e')
    then show ?thesis using e by simp
  next
    case False
    have p: "para_loop mem data sz i en = para_loop mem data sz e e"
      using 1(2) False by (subst para_loop.simps) (simp add: e')
    show ?thesis
    proof (cases "e < sz")
      case True
      then show ?thesis using 1(1) [OF 1(2) e_def False] e p by simp
    next
      case False
      then have "para_loop mem data sz e e = e" by (subst para_loop.simps) simp
      then show ?thesis using e p by simp
    qed
  qed
qed

lemma parse_paragraph_count:
  "0 < sz \<Longrightarrow> 0 < snd (parse_paragraph ob rndr mem data sz)
     \<and> snd (parse_paragraph ob rndr mem data sz) \<le> sz"
  using para_loop_bounds [of 0 sz mem data 0] by (simp add: parse_paragraph_def Let_def)

lemma bq_inv_init: "bq_inv data k 0 None 0"
  by (simp add: bq_inv_def)

lemma bq_loop_count:
  assumes "bq_loop mem data sz 0 0 None 0 [] = (mem', en', wd', ws', mv')"
  shows "en' \<le> sz" "0 < sz \<Longrightarrow> 0 < en'"
  using bq_loop_inv [OF assms refl _ _ bq_inv_init [of data 0]] by simp_all

lemma bq_loop_work_le:
  assumes "bq_loop mem data sz 0 0 None 0 [] = (mem', en', wd', ws', mv')"
  shows "ws' \<le> sz"
  using bq_loop_inv [OF assms refl _ _ bq_inv_init [of data 0]]
  by (auto simp: bq_inv_def split: option.splits)

lemma bq_loop_work_less:
  assumes "bq_loop mem data sz 0 0 None 0 [] = (mem', en', wd', ws', mv')"
    and "prefix_quote mem data sz \<noteq> 0"
  shows "ws' < sz"
proof -
  define e where "e = line_end mem data sz (0 + 1)"
  define pre where "pre = prefix_quote mem (data + 0) (e - 0)"
  have sz: "0 < sz" using assms(2) prefix_quote_le [of mem data sz] by simp
  have e: "e \<le> sz" unfolding e_def using sz by (intro line_end_le) simp
  have pre: "pre \<noteq> 0" "pre \<le> e"
    using prefix_quote_line [OF assms(2)] assms(2) prefix_quote_le [of mem data e]
    unfolding pre_def e_def by simp_all
  have e': "line_end mem data sz (Suc 0) = e" by (simp add: e_def)
  have pre': "prefix_quote mem data e = pre" by (simp add: pre_def)
  obtain m1 wd1 ws1 mv1 where c: "bq_copy mem data (0 + pre) e None 0 [] = (m1, wd1, ws1, mv1)"
    by (metis prod_cases4)
  have l: "bq_loop mem data sz 0 0 None 0 [] = bq_loop m1 data sz e e wd1 ws1 mv1"
    using sz pre(1) c by (subst bq_loop.simps) (simp add: e' pre')
  have ci: "bq_inv data pre e wd1 ws1 \<and> list_all (move_ok data sz) mv1"
    using bq_copy_inv [OF c bq_inv_init [of data pre] _ _ _ e] pre(2) by simp
  have "bq_inv data pre en' wd' ws'" "en' \<le> sz"
    using bq_loop_inv [OF assms(1) [unfolded l] refl e pre(2)] ci by simp_all
  then show ?thesis using pre(1) sz by (auto simp: bq_inv_def split: option.splits)
qed


text \<open>
  Lines 194-223 and 246-259. \<open>parse_block_loop\<close> is the loop of \<open>parse_block\<close>, from the
  state at the loop head to the state after the loop. Every function returns the output
  buffer and the store along with its C result. \<open>calls\<close> is the log of the calls of the
  sub-parsers so far, written in the branch that makes the call; the code has no such
  variable and nothing reads it. In \<open>parse_blockquote\<close> the variable
  \<^verbatim>\<open>end\<close> has no initial value in the source; it is assigned in the first iteration,
  which runs whenever the region is not empty, and the model starts it at 0.
\<close>

function parse_block :: "string \<Rightarrow> mkd_renderer \<Rightarrow> string \<Rightarrow> nat \<Rightarrow> nat \<Rightarrow> string \<times> string"
  and parse_block_loop ::
    "string \<Rightarrow> mkd_renderer \<Rightarrow> string \<Rightarrow> nat \<Rightarrow> nat \<Rightarrow> nat \<Rightarrow> (nat \<times> nat) list
       \<Rightarrow> string \<times> string \<times> nat \<times> (nat \<times> nat) list"
  and parse_blockquote ::
    "string \<Rightarrow> mkd_renderer \<Rightarrow> string \<Rightarrow> nat \<Rightarrow> nat \<Rightarrow> string \<times> string \<times> nat"
where
  "parse_block ob rndr mem data sz =
     (let (ob, mem, beg, calls) = parse_block_loop ob rndr mem data sz 0 [] in (ob, mem))"
| "parse_block_loop ob rndr mem data sz beg calls =
     (if beg < sz then
        let txt_data = data + beg;
            en = sz - beg
        in if prefix_quote mem txt_data en \<noteq> 0
           then (let (ob, mem, n) = parse_blockquote ob rndr mem txt_data en
                 in parse_block_loop ob rndr mem data sz (beg + n) (calls @ [(beg, n)]))
           else (let (ob, n) = parse_paragraph ob rndr mem txt_data en
                 in parse_block_loop ob rndr mem data sz (beg + n) (calls @ [(beg, n)]))
      else (ob, mem, beg, calls))"
| "parse_blockquote ob rndr mem data sz =
     (let (mem, en, work_data, work_size, moves) = bq_loop mem data sz 0 0 None 0 [];
          (out, mem) = parse_block [] rndr mem (case work_data of None \<Rightarrow> 0 | Some w \<Rightarrow> w)
                         work_size;
          ob = blockquote_cb rndr ob (Some out)
      in (ob, mem, en))"
  by pat_completeness auto
termination
proof (relation "measure (\<lambda>x. case x of
       Inl (ob, rndr, mem, data, sz) \<Rightarrow> 3 * sz + 2
     | Inr (Inl (ob, rndr, mem, data, sz, beg, calls)) \<Rightarrow> 3 * (sz - beg) + 1
     | Inr (Inr (ob, rndr, mem, data, sz)) \<Rightarrow>
         3 * sz + (if prefix_quote mem data sz \<noteq> 0 then 0 else 3))", goal_cases)
  case 1
  show ?case by simp
next
  case (2 ob rndr mem data sz)
  show ?case by simp
next
  case (3 ob rndr mem data sz beg calls x xa)
  then show ?case by simp
next
  case (4 ob rndr mem data sz beg calls x xa xb xc y xd ya)
  obtain m1 e1 wd1 ws1 mv1 where b: "bq_loop mem x xa 0 0 None 0 [] = (m1, e1, wd1, ws1, mv1)"
    by (metis prod_cases5)
  have "snd (snd (parse_blockquote ob rndr mem x xa)) = e1"
    using b by (simp add: parse_blockquote.psimps [OF 4(8)] split: prod.splits)
  then have "ya = e1" using 4(5,6,7) by (metis snd_conv)
  moreover have "0 < e1" using bq_loop_count(2) [OF b] 4(1,3) by simp
  ultimately show ?case using 4(1) by simp
next
  case (5 ob rndr mem data sz beg calls x xa xb xc y)
  have "y = snd (parse_paragraph ob rndr mem x xa)" using 5(5,6) by (metis snd_conv)
  then have "0 < y" using parse_paragraph_count [of xa ob rndr mem x] 5(1,3) by simp
  then show ?case using 5(1) by simp
next
  case (6 ob rndr mem data sz x xa y xb ya xc yb xd yc)
  have b: "bq_loop mem data sz 0 0 None 0 [] = (xa, xb, xc, xd, yc)"
    using 6 by simp
  show ?case
  proof (cases "prefix_quote mem data sz \<noteq> 0")
    case True
    then show ?thesis using bq_loop_work_less [OF b] by simp
  next
    case False
    then show ?thesis using bq_loop_work_le [OF b] by simp
  qed
qed

declare parse_block.simps [simp del] parse_block_loop.simps [simp del]
  parse_blockquote.simps [simp del]


section \<open>The exported function\<close>

text \<open>
  Lines 298-302: nothing more is done with an empty text; otherwise a line feed is added
  unless the text ends with one (or with a carriage return).
\<close>

definition final_newline :: "string \<Rightarrow> string" where
  "final_newline text =
     (if last text \<noteq> LF \<and> last text \<noteq> CR then text @ [LF] else text)"

text \<open>
  Lines 308-319, the dump of the reference table. The pointer \<^verbatim>\<open>lr\<close> is set to the
  base of the array and never advanced, so every round of the loop prints the first
  record.
\<close>

definition dump_ref :: "link_ref \<Rightarrow> string" where
  "dump_ref lr =
     [LF, TAB] @ ''('' @ [DQUOTE] @ lr_id lr @ [DQUOTE, SP, DQUOTE] @ lr_link lr
       @ (case lr_title lr of Some t \<Rightarrow> [DQUOTE, SP, DQUOTE] @ t | None \<Rightarrow> [])
       @ [DQUOTE] @ '')''"

definition dump_refs :: "link_ref list \<Rightarrow> string" where
  "dump_refs refs = ''(refs'' @ concat (map (\<lambda>i. dump_ref (hd refs)) [0..<length refs])
     @ '')'' @ [LF]"

text \<open>
  Lines 268-319. \<open>flags\<close> is not used. The text buffer is the store of the block parser,
  which gets the whole of it as its region.
\<close>

definition markdown :: "string \<Rightarrow> string \<Rightarrow> mkd_renderer \<Rightarrow> int \<Rightarrow> string" where
  "markdown ob ib rndr flags =
     (let (text, refs) = first_pass ib 0 [] [] in
      if text = [] then ob
      else
        let text = final_newline text;
            (ob, text) = parse_block ob rndr text 0 (length text)
        in ob @ dump_refs refs)"

text \<open>
  The text buffer once the first pass is over: as it is at the return of line 299 when it
  is empty, and as it is handed to the block parser on line 305 otherwise.
\<close>

definition cleaned :: "string \<Rightarrow> string" where
  "cleaned ib =
     (let (text, refs) = first_pass ib 0 [] [] in
      if text = [] then text else final_newline text)"

section \<open>The notions of the specification\<close>

text \<open>
  The run of line terminators as the specification words it: one line feed for each line
  feed that is not immediately followed by another line feed, and nothing for a carriage
  return.
\<close>

function spec_newline_run :: "string \<Rightarrow> nat \<Rightarrow> string \<Rightarrow> string \<times> nat" where
  "spec_newline_run ib en text =
     (if en < length ib \<and> (ib ! en = LF \<or> ib ! en = CR) then
        spec_newline_run ib (en + 1)
          (if ib ! en = LF \<and> \<not> (en + 1 < length ib \<and> ib ! (en + 1) = LF)
           then text @ [LF] else text)
      else (text, en))"
  by pat_completeness auto
termination
  by (relation "measure (\<lambda>(ib, en, tx). length ib - en)") auto

declare spec_newline_run.simps [simp del]

text \<open>
  The notions of the paragraph contract, stated on a region as a list of bytes. A line
  runs up to and including its line feed, or to the end of the region; it is empty when
  all its bytes before the line feed are spaces and tabs.
\<close>

definition line_len :: "string \<Rightarrow> nat" where
  "line_len r = min (length r) (Suc (length (takeWhile (\<lambda>c. c \<noteq> LF) r)))"

definition blank_line :: "string \<Rightarrow> bool" where
  "blank_line r = list_all blank (takeWhile (\<lambda>c. c \<noteq> LF) r)"

lemma line_len_pos: "r \<noteq> [] \<Longrightarrow> 0 < line_len r"
  by (cases r) (simp_all add: line_len_def)

lemma line_len_le: "line_len r \<le> length r"
  by (simp add: line_len_def)

text \<open>The offset of the first empty line, or the length of the region without one.\<close>

function first_empty_start :: "string \<Rightarrow> nat" where
  "first_empty_start r =
     (if r = [] then 0
      else if blank_line r then 0
      else line_len r + first_empty_start (drop (line_len r) r))"
  by pat_completeness auto
termination
  by (relation "measure length") (auto simp: line_len_pos)

declare first_empty_start.simps [simp del]

text \<open>The offset after the first empty line, or the length of the region without one.\<close>

function first_empty_end :: "string \<Rightarrow> nat" where
  "first_empty_end r =
     (if r = [] then 0
      else if blank_line r then line_len r
      else line_len r + first_empty_end (drop (line_len r) r))"
  by pat_completeness auto
termination
  by (relation "measure length") (auto simp: line_len_pos)

declare first_empty_end.simps [simp del]

definition trim_lfs :: "string \<Rightarrow> string" where
  "trim_lfs r = rev (dropWhile (\<lambda>c. c = LF) (rev r))"

text \<open>
  The view of the paragraph as the specification words it, and as the code computes it.
\<close>

definition spec_paragraph_view :: "string \<Rightarrow> string" where
  "spec_paragraph_view r = trim_lfs (take (first_empty_start r) r)"

definition paragraph_view :: "string \<Rightarrow> string" where
  "paragraph_view r = trim_lfs (take (first_empty_end r) r)"

text \<open>
  Two stores agree outside the region \<open>data[0 .. sz)\<close>: they have the same length, the
  same bytes before the region and the same bytes after it.
\<close>

definition same_outside :: "nat \<Rightarrow> nat \<Rightarrow> string \<Rightarrow> string \<Rightarrow> bool" where
  "same_outside data sz mem mem' =
     (length mem' = length mem \<and> take data mem' = take data mem
      \<and> drop (data + sz) mem' = drop (data + sz) mem)"

section \<open>Properties of the first pass\<close>


lemma scan_all: "i \<le> j \<Longrightarrow> j < scan P data i en \<Longrightarrow> P (data ! j)"
proof (induction P data i en rule: scan.induct)
  case (1 P data i en)
  show ?case
  proof (cases "i < en \<and> P (data ! i)")
    case True
    then have s: "scan P data i en = scan P data (i + 1) en" by (subst scan.simps) simp
    show ?thesis
    proof (cases "j = i")
      case True
      then show ?thesis using \<open>i < en \<and> P (data ! i)\<close> by simp
    next
      case False
      then show ?thesis using 1 True s by simp
    qed
  next
    case False
    then have "scan P data i en = i" by (subst scan.simps) auto
    then show ?thesis using 1(2,3) by simp
  qed
qed

lemma scan_eq:
  "i \<le> k \<Longrightarrow> k \<le> en \<Longrightarrow> \<forall>j. i \<le> j \<and> j < k \<longrightarrow> P (data ! j)
     \<Longrightarrow> k < en \<longrightarrow> \<not> P (data ! k) \<Longrightarrow> scan P data i en = k"
proof (induction P data i en rule: scan.induct)
  case (1 P data i en)
  show ?case
  proof (cases "i = k")
    case True
    then show ?thesis using 1(5) by (subst scan.simps) auto
  next
    case False
    then have "i < k" using 1(2) by simp
    then have c: "i < en \<and> P (data ! i)" using 1(3,4) by auto
    then have "scan P data i en = scan P data (i + 1) en" by (subst scan.simps) simp
    then show ?thesis using 1(1) [OF c] \<open>i < k\<close> 1(3,4,5) by simp
  qed
qed

lemma slice_set:
  assumes "e \<le> length xs"
  shows "set (take (e - b) (drop b xs)) = {xs ! j | j. b \<le> j \<and> j < e}"
proof -
  have "take (e - b) (drop b xs) = map ((!) xs) [b..<e]"
    using assms by (intro nth_equalityI) auto
  then show ?thesis by auto
qed

lemma newline_run_set: "set (fst (newline_run ib en tx)) \<subseteq> set tx \<union> {LF}"
proof (induction ib en tx rule: newline_run.induct)
  case (1 ib en tx)
  show ?case
  proof (cases "en < length ib \<and> (ib ! en = LF \<or> ib ! en = CR)")
    case True
    then show ?thesis using 1 by (subst newline_run.simps) (auto split: if_splits)
  next
    case False
    then show ?thesis by (subst newline_run.simps) auto
  qed
qed

lemma first_pass_no_cr:
  "CR \<notin> set tx \<Longrightarrow> CR \<notin> set (fst (first_pass ib beg tx refs))"
proof (induction ib beg tx refs rule: first_pass.induct)
  case (1 ib beg tx refs)
  show ?case
  proof (cases "beg < length ib")
    case False
    then show ?thesis using 1(3) by (subst first_pass.simps) simp
  next
    case True
    show ?thesis
    proof (cases "is_ref ib beg (length ib)")
      case (Some r)
      obtain en lr where r: "r = (en, lr)" by (cases r)
      have "first_pass ib beg tx refs = first_pass ib en tx (refs @ [lr])"
        using True Some r by (subst first_pass.simps) simp
      then show ?thesis using 1(2) [OF True Some r [symmetric]] 1(3) by simp
    next
      case None
      define e where "e = scan not_eol ib beg (length ib)"
      define t1 where "t1 = (if e > beg then tx @ take (e - beg) (drop beg ib) else tx)"
      obtain t2 e2 where n: "newline_run ib e t1 = (t2, e2)" by (cases "newline_run ib e t1")
      have f: "first_pass ib beg tx refs = first_pass ib e2 t2 refs"
        using True None n
        by (subst first_pass.simps) (simp add: e_def [symmetric] t1_def [symmetric])
      have el: "e \<le> length ib" unfolding e_def using True by (intro scan_le) simp
      have "ib ! j \<noteq> CR" if "beg \<le> j" "j < e" for j
        using scan_all [of beg j not_eol ib "length ib"] that by (simp add: e_def not_eol_def)
      then have "CR \<notin> set (take (e - beg) (drop beg ib))"
        unfolding slice_set [OF el] by force
      then have "CR \<notin> set t1" using 1(3) by (simp add: t1_def)
      then have "CR \<notin> set t2" using newline_run_set [of ib e t1] n by auto
      then show ?thesis using 1(1) [OF True None e_def t1_def refl n [symmetric]] f by simp
    qed
  qed
qed

lemma is_ref_no_bracket:
  assumes "\<forall>j<en. data ! j \<noteq> CHR ''[''"
  shows "is_ref data beg en = None"
  using assms unfolding is_ref_def Let_def by (simp add: not_le)

lemma is_ref_three_spaces:
  assumes "data ! beg = SP" "data ! (beg + 1) = SP" "data ! (beg + 2) = SP"
  shows "is_ref data beg en = None"
proof -
  have a: "data ! Suc beg = SP" "data ! Suc (Suc beg) = SP"
    using assms(2,3) by (simp_all add: numeral_2_eq_2)
  have "en \<le> lead_spaces data beg en beg \<or> beg + 3 \<le> lead_spaces data beg en beg"
    by (simp add: lead_spaces.simps [of data beg en beg]
        lead_spaces.simps [of data beg en "Suc beg"]
        lead_spaces.simps [of data beg en "Suc (Suc beg)"]
        lead_spaces.simps [of data beg en "Suc (Suc (Suc beg))"]
        assms(1) a numeral_3_eq_3)
  then show ?thesis by (auto simp: is_ref_def)
qed

lemma first_pass_plain_line:
  assumes "beg < length ib" "is_ref ib beg (length ib) = None"
    and "scan not_eol ib beg (length ib) = e"
    and "newline_run ib e (if e > beg then tx @ take (e - beg) (drop beg ib) else tx) = (t2, e2)"
  shows "first_pass ib beg tx refs = first_pass ib e2 t2 refs"
  using assms by (subst first_pass.simps) simp






section \<open>Properties of the block parser\<close>




lemma same_outside_refl: "same_outside data sz mem mem"
  by (simp add: same_outside_def)

lemma same_outside_trans:
  "same_outside data sz a b \<Longrightarrow> same_outside data sz b c \<Longrightarrow> same_outside data sz a c"
  by (simp add: same_outside_def)

lemma memmove_same_outside:
  assumes "data \<le> dst" "dst \<le> src" "src + n \<le> data + sz" "data + sz \<le> length mem"
  shows "same_outside data sz mem (memmove mem dst src n)"
proof -
  define A where "A = take dst mem"
  define B where "B = take n (drop src mem)"
  define C where "C = drop (dst + n) mem"
  have m: "memmove mem dst src n = A @ B @ C" by (simp add: memmove_def A_def B_def C_def)
  have lA: "length A = dst" using assms by (simp add: A_def)
  have lB: "length B = n" using assms by (simp add: B_def)
  have lC: "length C = length mem - (dst + n)" by (simp add: C_def)
  have 1: "length (A @ B @ C) = length mem" using assms by (simp add: lA lB lC)
  have "take data (A @ B @ C) = take data A" using assms(1) by (simp add: lA)
  also have "\<dots> = take data mem" using assms(1) by (simp add: A_def min_def)
  finally have 2: "take data (A @ B @ C) = take data mem" .
  have "drop (data + sz) (A @ B @ C) = drop (data + sz - (dst + n)) C"
    using assms by (simp add: lA lB)
  also have "\<dots> = drop (data + sz) mem" using assms by (simp add: C_def)
  finally have 3: "drop (data + sz) (A @ B @ C) = drop (data + sz) mem" .
  show ?thesis unfolding same_outside_def m using 1 2 3 by simp
qed

lemma bq_copy_keeps_inv:
  assumes "bq_copy mem data b' e wd ws mv = (mem', wd', ws', mv')"
    and "bq_inv data k b wd ws" "b \<le> b'" "k \<le> b'" "b' \<le> e"
  shows "bq_inv data k e wd' ws'"
  using assms unfolding bq_copy_def bq_inv_def
  by (auto split: if_splits option.splits)

lemma bq_copy_frame:
  assumes "bq_copy mem data b' e wd ws mv = (mem', wd', ws', mv')"
    and "bq_inv data k b wd ws" "b \<le> b'" "b' \<le> e" "e \<le> sz" "data + sz \<le> length mem"
  shows "same_outside data sz mem mem'"
proof (cases "b' < e \<and> (\<exists>w. wd = Some w \<and> data + b' \<noteq> w + ws)")
  case True
  then obtain w where w: "wd = Some w" "data + b' \<noteq> w + ws" "b' < e" by auto
  have "mem' = memmove mem (w + ws) (data + b') (e - b')"
    using assms(1) w by (simp add: bq_copy_def)
  moreover have "data \<le> w + ws" "w + ws \<le> data + b'" "data + b' + (e - b') \<le> data + sz"
    using assms(2-5) w by (simp_all add: bq_inv_def)
  ultimately show ?thesis using assms(6) by (simp add: memmove_same_outside)
next
  case False
  then have "mem' = mem" using assms(1) by (auto simp: bq_copy_def split: option.splits if_splits)
  then show ?thesis by (simp add: same_outside_refl)
qed

lemma bq_loop_frame:
  assumes "bq_loop mem data sz beg en wd ws mv = (mem', en', wd', ws', mv')"
    and "en = beg" "beg \<le> sz" "bq_inv data 0 beg wd ws" "data + sz \<le> length mem"
  shows "same_outside data sz mem mem'"
  using assms
proof (induction mem data sz beg en wd ws mv rule: bq_loop.induct)
  case (1 mem data sz beg en wd ws mv)
  show ?case
  proof (cases "beg < sz")
    case False
    then have "bq_loop mem data sz beg en wd ws mv = (mem, en, wd, ws, mv)"
      by (subst bq_loop.simps) simp
    then show ?thesis using 1(3) by (simp add: same_outside_refl)
  next
    case True
    define e where "e = line_end mem data sz (beg + 1)"
    define pre where "pre = prefix_quote mem (data + beg) (e - beg)"
    have e: "beg < e" "e \<le> sz"
      using line_end_ge [of "beg + 1" mem data sz] line_end_le [of "beg + 1" sz mem data] True
      unfolding e_def by simp_all
    have e': "line_end mem data sz (Suc beg) = e" by (simp add: e_def)
    have pre': "prefix_quote mem (data + beg) (e - beg) = pre" by (simp add: pre_def)
    have pre: "beg + pre \<le> e" using prefix_quote_le [of mem "data + beg" "e - beg"] e
      unfolding pre_def by simp
    have rest: "same_outside data sz mem mem'"
      if c: "bq_copy mem data b' e wd ws mv = (m1, wd1, ws1, mv1)"
        and l: "bq_loop mem data sz beg en wd ws mv = bq_loop m1 data sz e e wd1 ws1 mv1"
        and ih: "\<lbrakk>bq_loop m1 data sz e e wd1 ws1 mv1 = (mem', en', wd', ws', mv'); e = e; e \<le> sz;
                  bq_inv data 0 e wd1 ws1; data + sz \<le> length m1\<rbrakk>
                 \<Longrightarrow> same_outside data sz m1 mem'"
        and b': "beg \<le> b'" "b' \<le> e"
      for b' m1 wd1 ws1 mv1
    proof -
      have f: "same_outside data sz mem m1"
        using bq_copy_frame [OF c 1(6) b' e(2) 1(7)] .
      have ci: "bq_inv data 0 e wd1 ws1"
        using bq_copy_keeps_inv [OF c 1(6) b'(1) _ b'(2)] by simp
      have "same_outside data sz m1 mem'"
        using 1(3) l ci e(2) f 1(7) by (intro ih) (simp_all add: same_outside_def)
      then show ?thesis using f by (rule same_outside_trans [rotated])
    qed
    show ?thesis
    proof (cases "pre \<noteq> 0")
      case p: True
      obtain m1 wd1 ws1 mv1 where c: "bq_copy mem data (beg + pre) e wd ws mv = (m1, wd1, ws1, mv1)"
        by (metis prod_cases4)
      have l: "bq_loop mem data sz beg en wd ws mv = bq_loop m1 data sz e e wd1 ws1 mv1"
        using True p c by (subst bq_loop.simps) (simp add: e' pre')
      show ?thesis
        by (rule rest [OF c l 1(1) [OF True e_def pre_def p c [symmetric] refl refl refl] _ pre])
          simp_all
    next
      case p: False
      show ?thesis
      proof (cases "is_empty mem (data + beg) (e - beg)
                \<and> (e \<ge> sz \<or> prefix_quote mem (data + e) (sz - e) = 0)")
        case brk: True
        have "bq_loop mem data sz beg en wd ws mv = (mem, e, wd, ws, mv)"
          using True p brk by (subst bq_loop.simps) (simp add: e' pre')
        then show ?thesis using 1(3) by (simp add: same_outside_refl)
      next
        case brk: False
        obtain m1 wd1 ws1 mv1 where c: "bq_copy mem data beg e wd ws mv = (m1, wd1, ws1, mv1)"
          by (metis prod_cases4)
        have l: "bq_loop mem data sz beg en wd ws mv = bq_loop m1 data sz e e wd1 ws1 mv1"
          using True p c brk by (subst bq_loop.simps) (auto simp add: e' pre')
        show ?thesis
          using p brk e(1)
          by (intro rest [OF c l 1(2) [OF True e_def pre_def _ _ c [symmetric] refl refl refl]])
            simp_all
      qed
    qed
  qed
qed

lemma prefix_quote_no_mark:
  assumes "\<forall>j<sz. mem ! (data + j) \<noteq> CHR ''>''"
  shows "prefix_quote mem data sz = 0"
  using assms by (cases mem data sz rule: prefix_quote_cases) auto

section \<open>The paragraph parser on lists\<close>

lemma region_Cons:
  assumes "data + sz \<le> length mem" "0 < sz"
  shows "take sz (drop data mem) = mem ! data # take (sz - 1) (drop (data + 1) mem)"
proof -
  have "drop data mem = mem ! data # drop (Suc data) mem"
    using assms by (intro Cons_nth_drop_Suc [symmetric]) simp
  then show ?thesis using assms(2) by (cases sz) simp_all
qed

lemma is_empty_loop_list:
  "data + sz \<le> length mem \<Longrightarrow> i \<le> sz \<Longrightarrow>
     is_empty_loop mem data sz i = blank_line (take (sz - i) (drop (data + i) mem))"
proof (induction mem data sz i rule: is_empty_loop.induct)
  case (1 mem data sz i)
  show ?case
  proof (cases "i < sz")
    case False
    then show ?thesis by (subst is_empty_loop.simps) (simp add: blank_line_def)
  next
    case True
    have c: "take (sz - i) (drop (data + i) mem)
        = mem ! (data + i) # take (sz - (i + 1)) (drop (data + (i + 1)) mem)"
      using region_Cons [of "data + i" "sz - i" mem] 1(2) True by simp
    show ?thesis
    proof (cases "mem ! (data + i) = LF")
      case lf: True
      then show ?thesis using True by (subst is_empty_loop.simps) (simp add: c blank_line_def)
    next
      case lf: False
      show ?thesis
      proof (cases "mem ! (data + i) \<noteq> SP \<and> mem ! (data + i) \<noteq> TAB")
        case b: True
        then show ?thesis using True lf
          by (subst is_empty_loop.simps) (simp add: c blank_line_def blank_def)
      next
        case b: False
        have "is_empty_loop mem data sz i = is_empty_loop mem data sz (i + 1)"
          using True lf b by (subst is_empty_loop.simps) auto
        also have "\<dots> = blank_line (take (sz - (i + 1)) (drop (data + (i + 1)) mem))"
          using 1(1) [OF _ _ 1(2)] True lf b by auto
        also have "\<dots> = blank_line (take (sz - i) (drop (data + i) mem))"
          using lf b unfolding c by (auto simp: blank_line_def blank_def)
        finally show ?thesis .
      qed
    qed
  qed
qed

lemma is_empty_list:
  "data + sz \<le> length mem \<Longrightarrow> is_empty mem data sz = blank_line (take sz (drop data mem))"
  using is_empty_loop_list [of data sz mem 0] by (simp add: is_empty_def)

lemma line_end_list:
  "data + sz \<le> length mem \<Longrightarrow> 1 \<le> en \<Longrightarrow> en \<le> sz \<Longrightarrow>
     line_end mem data sz en
       = en - 1 + line_len (take (sz - (en - 1)) (drop (data + (en - 1)) mem))"
proof (induction mem data sz en rule: line_end.induct)
  case (1 mem data sz en)
  have c: "take (sz - (en - 1)) (drop (data + (en - 1)) mem)
      = mem ! (data + (en - 1)) # take (sz - en) (drop (data + en) mem)"
    using region_Cons [of "data + (en - 1)" "sz - (en - 1)" mem] 1(2,3,4) by simp
  show ?case
  proof (cases "en < sz \<and> mem ! (data + (en - 1)) \<noteq> LF")
    case True
    have "line_end mem data sz en = line_end mem data sz (en + 1)"
      using True by (subst line_end.simps) simp
    also have "\<dots> = en + line_len (take (sz - en) (drop (data + en) mem))"
      using 1(1) [OF True 1(2)] True by simp
    also have "\<dots> = en - 1 + line_len (take (sz - (en - 1)) (drop (data + (en - 1)) mem))"
      using True 1(3) unfolding c by (simp add: line_len_def)
    finally show ?thesis .
  next
    case False
    then have "line_end mem data sz en = en" by (subst line_end.simps) auto
    then show ?thesis using False 1(3,4) unfolding c by (auto simp: line_len_def)
  qed
qed

lemma para_loop_list:
  "data + sz \<le> length mem \<Longrightarrow> i < sz \<Longrightarrow>
     para_loop mem data sz i en = i + first_empty_end (take (sz - i) (drop (data + i) mem))"
proof (induction mem data sz i en rule: para_loop.induct)
  case (1 mem data sz i en)
  let ?r = "take (sz - i) (drop (data + i) mem)"
  have ne: "?r \<noteq> []" using 1(2,3) by simp
  have le: "line_end mem data sz (i + 1) = i + line_len ?r"
    using line_end_list [of data sz mem "i + 1"] 1(2,3) by simp
  have em: "is_empty mem (data + i) (sz - i) = blank_line ?r"
    using is_empty_list [of "data + i" "sz - i" mem] 1(2,3) by simp
  have ll: "line_len ?r \<le> sz - i" using line_len_le [of ?r] by simp
  show ?case
  proof (cases "blank_line ?r")
    case True
    have "para_loop mem data sz i en = i + line_len ?r"
      using 1(3) True em le by (subst para_loop.simps) simp
    then show ?thesis using True ne by (subst first_empty_end.simps) simp
  next
    case False
    define e where "e = i + line_len ?r"
    have p: "para_loop mem data sz i en = para_loop mem data sz e e"
      using 1(3) False em le by (subst para_loop.simps) (simp add: e_def Let_def)
    have d: "drop (line_len ?r) ?r = take (sz - e) (drop (data + e) mem)"
      by (simp add: e_def drop_take ac_simps)
    have f: "first_empty_end ?r = line_len ?r + first_empty_end (take (sz - e) (drop (data + e) mem))"
      using False ne d by (subst first_empty_end.simps) simp
    show ?thesis
    proof (cases "e < sz")
      case True
      have "para_loop mem data sz e e = e + first_empty_end (take (sz - e) (drop (data + e) mem))"
        using 1(1) [OF 1(3) _ _ 1(2) True] False em le by (simp add: e_def)
      then show ?thesis using p f by (simp add: e_def)
    next
      case False
      then have "e = sz" using ll 1(3) by (simp add: e_def)
      moreover have "para_loop mem data sz sz sz = sz" by (subst para_loop.simps) simp
      moreover have "first_empty_end [] = 0" by (subst first_empty_end.simps) simp
      ultimately show ?thesis using p f by (simp add: e_def)
    qed
  qed
qed

lemma trim_lfs_snoc: "trim_lfs (xs @ [c]) = (if c = LF then trim_lfs xs else xs @ [c])"
  by (simp add: trim_lfs_def)

lemma trim_lfs_id: "LF \<notin> set r \<Longrightarrow> trim_lfs r = r"
  by (induction r rule: rev_induct) (auto simp: trim_lfs_def)

lemma trim_lf_list:
  "data + n \<le> length mem \<Longrightarrow>
     take (trim_lf mem data n) (drop data mem) = trim_lfs (take n (drop data mem))"
proof (induction mem data n rule: trim_lf.induct)
  case (1 mem data n)
  show ?case
  proof (cases n)
    case 0
    then show ?thesis by (subst trim_lf.simps) (simp add: trim_lfs_def)
  next
    case (Suc m)
    have s: "take (Suc m) (drop data mem) = take m (drop data mem) @ [mem ! (data + m)]"
      using 1(2) Suc by (simp add: take_Suc_conv_app_nth)
    show ?thesis
    proof (cases "mem ! (data + m) = LF")
      case True
      have "trim_lf mem data n = trim_lf mem data m"
        using True Suc by (subst trim_lf.simps) simp
      then show ?thesis using 1(1) 1(2) True Suc by (simp add: s trim_lfs_snoc)
    next
      case False
      have "trim_lf mem data n = n" using False Suc by (subst trim_lf.simps) simp
      then show ?thesis using False Suc by (simp add: s trim_lfs_snoc)
    qed
  qed
qed

lemma first_empty_end_le: "first_empty_end r \<le> length r"
proof (induction r rule: first_empty_end.induct)
  case (1 r)
  show ?case
  proof (cases "r = [] \<or> blank_line r")
    case True
    then show ?thesis using line_len_le [of r] by (subst first_empty_end.simps) auto
  next
    case False
    then show ?thesis using 1 line_len_le [of r] by (subst first_empty_end.simps) auto
  qed
qed

lemma first_empty_start_le: "first_empty_start r \<le> length r"
proof (induction r rule: first_empty_start.induct)
  case (1 r)
  show ?case
  proof (cases "r = [] \<or> blank_line r")
    case True
    then show ?thesis by (subst first_empty_start.simps) auto
  next
    case False
    then show ?thesis using 1 line_len_le [of r] by (subst first_empty_start.simps) auto
  qed
qed

lemma first_empty_end_start:
  "first_empty_end r = first_empty_start r + line_len (drop (first_empty_start r) r)"
proof (induction r rule: first_empty_start.induct)
  case (1 r)
  show ?case
  proof (cases "r = []")
    case True
    then show ?thesis
      by (subst first_empty_end.simps, subst (1 2) first_empty_start.simps) (simp add: line_len_def)
  next
    case ne: False
    show ?thesis
    proof (cases "blank_line r")
      case True
      then show ?thesis using ne
        by (subst first_empty_end.simps, subst (1 2) first_empty_start.simps) simp
    next
      case False
      have s: "first_empty_start r = line_len r + first_empty_start (drop (line_len r) r)"
        using ne False by (subst first_empty_start.simps) simp
      have e: "first_empty_end r = line_len r + first_empty_end (drop (line_len r) r)"
        using ne False by (subst first_empty_end.simps) simp
      show ?thesis
        unfolding e 1 [OF ne False] unfolding s by (simp add: add.commute)
    qed
  qed
qed

lemma parse_paragraph_list:
  assumes "data + sz \<le> length mem"
  shows "parse_paragraph ob rndr mem data sz
    = (paragraph_cb rndr ob (Some (paragraph_view (take sz (drop data mem)))),
       first_empty_end (take sz (drop data mem)))"
proof -
  let ?r = "take sz (drop data mem)"
  have e: "para_loop mem data sz 0 0 = first_empty_end ?r"
  proof (cases "0 < sz")
    case True
    then show ?thesis using para_loop_list [OF assms, of 0 0] by simp
  next
    case False
    then show ?thesis
      by (subst para_loop.simps, subst first_empty_end.simps) simp
  qed
  have l: "first_empty_end ?r \<le> sz" using first_empty_end_le [of ?r] by simp
  have "take (trim_lf mem data (first_empty_end ?r)) (drop data mem)
      = trim_lfs (take (first_empty_end ?r) (drop data mem))"
    using assms l by (intro trim_lf_list) simp
  also have "take (first_empty_end ?r) (drop data mem) = take (first_empty_end ?r) ?r"
    using l by (simp add: min_def)
  finally show ?thesis
    by (simp add: parse_paragraph_def Let_def e paragraph_view_def)
qed

lemma paragraph_view_spec:
  assumes "first_empty_start r = length r \<or> r ! first_empty_start r = LF"
  shows "paragraph_view r = spec_paragraph_view r"
proof (cases "first_empty_start r = length r")
  case True
  then have "first_empty_end r = length r"
    by (simp add: first_empty_end_start line_len_def)
  then show ?thesis using True by (simp add: paragraph_view_def spec_paragraph_view_def)
next
  case False
  define s where "s = first_empty_start r"
  have s: "s < length r" "r ! s = LF"
    using False assms first_empty_start_le [of r] by (simp_all add: s_def)
  have d: "drop s r = LF # drop (Suc s) r" using s Cons_nth_drop_Suc [of s r] by simp
  have "line_len (drop s r) = 1" using s(1) unfolding line_len_def d by simp
  then have e: "first_empty_end r = Suc s" by (simp add: first_empty_end_start s_def)
  have "take (Suc s) r = take s r @ [LF]" using s by (simp add: take_Suc_conv_app_nth)
  then show ?thesis
    by (simp add: paragraph_view_def spec_paragraph_view_def e s_def [symmetric] trim_lfs_snoc)
qed

section \<open>A single blank line\<close>

lemma blank_nth:
  assumes "list_all blank ws" "j < length ws"
  shows "ws ! j = SP \<or> ws ! j = TAB"
  using assms by (simp add: list_all_length blank_def)

lemma blank_not_lf: "blank c \<Longrightarrow> c \<noteq> LF"
  unfolding blank_def by (elim disjE; hypsubst; simp)

lemma blank_no_lf: "list_all blank ws \<Longrightarrow> LF \<notin> set ws"
  using blank_not_lf by (induction ws) (simp_all, blast)

lemma blank_line_first_pass:
  assumes "list_all blank ws"
  shows "first_pass (ws @ [LF]) 0 [] [] = (ws @ [LF], [])"
proof -
  define ib where "ib = ws @ [LF]"
  define n where "n = length ws"
  have len: "length ib = Suc n" by (simp add: ib_def n_def)
  have b: "ib ! j = SP \<or> ib ! j = TAB" if "j < n" for j
    using blank_nth [OF assms, of j] that by (simp add: nth_append ib_def n_def)
  have l: "ib ! n = LF" by (simp add: ib_def n_def)
  have "\<forall>j<Suc n. ib ! j \<noteq> CHR ''[''"
  proof (intro allI impI)
    fix j assume "j < Suc n"
    then consider "j < n" | "j = n" by fastforce
    then show "ib ! j \<noteq> CHR ''[''" using b [of j] l by cases auto
  qed
  then have r: "is_ref ib 0 (Suc n) = None" by (rule is_ref_no_bracket)
  have ne: "not_eol (ib ! j)" if "j < n" for j
    using b [OF that] by (auto simp: not_eol_def)
  have s: "scan not_eol ib 0 (Suc n) = n"
    using ne l by (intro scan_eq) (auto simp: not_eol_def)
  have t: "take n ib = ws" by (simp add: ib_def n_def)
  have t': "(if n > 0 then [] @ take (n - 0) (drop 0 ib) else []) = ws"
    using t by (auto simp: n_def)
  have n2: "newline_run ib (Suc n) (ws @ [LF]) = (ws @ [LF], Suc n)"
    by (subst newline_run.simps) (simp add: len)
  have n1: "newline_run ib n ws = (ws @ [LF], Suc n)"
    by (subst newline_run.simps) (simp add: len l n2)
  have f: "first_pass ib (Suc n) (ws @ [LF]) [] = (ws @ [LF], [])"
    by (subst first_pass.simps) (simp add: len)
  have "first_pass ib 0 [] [] = first_pass ib (Suc n) (ws @ [LF]) []"
    by (rule first_pass_plain_line [where e = n]) (simp_all only: len r s t' n1 zero_less_Suc)
  then have "first_pass ib 0 [] [] = (ws @ [LF], [])" using f by simp
  then show ?thesis by (simp add: ib_def)
qed

lemma blank_line_paragraph:
  assumes "list_all blank ws"
  shows "parse_paragraph ob rndr (ws @ [LF]) 0 (Suc (length ws))
    = (paragraph_cb rndr ob (Some ws), Suc (length ws))"
proof -
  have nl: "LF \<notin> set ws" using assms by (rule blank_no_lf)
  then have tw: "takeWhile (\<lambda>c. c \<noteq> LF) (ws @ [LF]) = ws"
    by (subst takeWhile_append2) auto
  have bl: "blank_line (ws @ [LF])" using assms by (simp add: blank_line_def tw)
  have ll: "line_len (ws @ [LF]) = Suc (length ws)" by (simp add: line_len_def tw)
  have fe: "first_empty_end (ws @ [LF]) = Suc (length ws)"
    using bl ll by (subst first_empty_end.simps) simp
  have pv: "paragraph_view (ws @ [LF]) = ws"
    using nl by (simp add: paragraph_view_def fe trim_lfs_snoc trim_lfs_id)
  have "parse_paragraph ob rndr (ws @ [LF]) 0 (Suc (length ws))
      = (paragraph_cb rndr ob (Some (paragraph_view (take (Suc (length ws)) (drop 0 (ws @ [LF]))))),
         first_empty_end (take (Suc (length ws)) (drop 0 (ws @ [LF]))))"
    by (rule parse_paragraph_list) simp
  then show ?thesis by (simp add: fe pv)
qed

lemma blank_line_block:
  assumes "list_all blank ws"
  shows "fst (parse_block ob rndr (ws @ [LF]) 0 (Suc (length ws))) = paragraph_cb rndr ob (Some ws)"
proof -
  define ib where "ib = ws @ [LF]"
  define n where "n = length ws"
  define ob' where "ob' = paragraph_cb rndr ob (Some ws)"
  have "\<forall>j<Suc n. ib ! (0 + j) \<noteq> CHR ''>''"
  proof (intro allI impI)
    fix j assume "j < Suc n"
    then consider "j < n" | "j = n" by fastforce
    then show "ib ! (0 + j) \<noteq> CHR ''>''"
      using blank_nth [OF assms, of j] by cases (auto simp: nth_append ib_def n_def)
  qed
  then have q: "prefix_quote ib 0 (Suc n) = 0" by (rule prefix_quote_no_mark)
  have p: "parse_paragraph ob rndr ib 0 (Suc n) = (ob', Suc n)"
    using blank_line_paragraph [OF assms, of ob rndr] by (simp add: ib_def n_def ob'_def)
  have e: "parse_block_loop ob' rndr ib 0 (Suc n) (Suc n) [(0, Suc n)]
      = (ob', ib, Suc n, [(0, Suc n)])"
    by (subst parse_block_loop.simps) simp
  have "parse_block_loop ob rndr ib 0 (Suc n) 0 [] = (ob', ib, Suc n, [(0, Suc n)])"
    by (subst parse_block_loop.simps) (simp add: q p e)
  then have "fst (parse_block ob rndr ib 0 (Suc n)) = ob'" by (simp add: parse_block.simps)
  then show ?thesis by (simp add: ib_def n_def ob'_def)
qed

section \<open>The claims\<close>

text \<open>
  Claim C1. For the three lines \<^verbatim>\<open>> outer\<close>, \<^verbatim>\<open>> > inner\<close>, \<^verbatim>\<open>> outer again\<close>
  the claim expects a nested blockquote between two paragraphs. The paragraph parser
  stops at empty lines only, so the inner quoted line stays text of the one paragraph
  of the outer quote. As stated the claim fails:
\<close>

theorem nested_quote_counterexample:
  "fst (parse_block [] mkd_xhtml
          (cleaned ''> outer\<newline>> > inner\<newline>> outer again\<newline>'') 0
          (length (cleaned ''> outer\<newline>> > inner\<newline>> outer again\<newline>'')))
     \<noteq> ''<blockquote>\<newline><p>outer</p>\<newline>\<newline><blockquote>\<newline><p>inner</p>\<newline></blockquote>\<newline>\<newline><p>outer again</p>\<newline></blockquote>\<newline>''
   \<and> markdown [] ''> outer\<newline>> > inner\<newline>> outer again\<newline>'' mkd_xhtml 0
     \<noteq> ''<blockquote>\<newline><p>outer</p>\<newline>\<newline><blockquote>\<newline><p>inner</p>\<newline></blockquote>\<newline>\<newline><p>outer again</p>\<newline></blockquote>\<newline>''
         @ dump_refs []"
  by code_simp

text \<open>
  Claim C1, amended: the second pass renders one blockquote holding one paragraph whose
  text is the three lines without their first quote prefix; \<open>markdown\<close> returns this
  followed by the dump of the empty reference table.
\<close>

theorem nested_quote_is_paragraph_text:
  "fst (parse_block [] mkd_xhtml
          (cleaned ''> outer\<newline>> > inner\<newline>> outer again\<newline>'') 0
          (length (cleaned ''> outer\<newline>> > inner\<newline>> outer again\<newline>'')))
     = ''<blockquote>\<newline><p>outer\<newline>> inner\<newline>outer again</p>\<newline></blockquote>\<newline>''
   \<and> markdown [] ''> outer\<newline>> > inner\<newline>> outer again\<newline>'' mkd_xhtml flags
     = ''<blockquote>\<newline><p>outer\<newline>> inner\<newline>outer again</p>\<newline></blockquote>\<newline>''
         @ dump_refs []"
  by code_simp

text \<open>
  Claim C2. For a reference definition, a blank line and a line \<^verbatim>\<open>Body.\<close> the claim
  expects the single paragraph \<^verbatim>\<open><p>Body.</p>\<close>. The scanner reports the offset of
  the line terminator of the definition, not the offset after it, so that terminator and
  the blank line stay in the cleaned text and each is rendered as an empty paragraph.
  As stated the claim fails:
\<close>

theorem reference_body_counterexample:
  "fst (parse_block [] mkd_xhtml
          (cleaned (''[ref]: http://example.com '' @ [DQUOTE] @ ''title'' @ [DQUOTE] @ ''\<newline>\<newline>Body.\<newline>'')) 0
          (length (cleaned (''[ref]: http://example.com '' @ [DQUOTE] @ ''title'' @ [DQUOTE] @ ''\<newline>\<newline>Body.\<newline>''))))
     \<noteq> ''<p>Body.</p>\<newline>''
   \<and> markdown []
       (''[ref]: http://example.com '' @ [DQUOTE] @ ''title'' @ [DQUOTE] @ ''\<newline>\<newline>Body.\<newline>'')
       mkd_xhtml 0
     \<noteq> ''<p>Body.</p>\<newline>''
         @ dump_refs [\<lparr> lr_id = ''ref'', lr_link = ''http://example.com'', lr_title = Some ''title'' \<rparr>]"
  by code_simp

text \<open>
  Claim C2, amended: the reference table holds exactly the one record with id
  \<^verbatim>\<open>ref\<close>, link \<^verbatim>\<open>http://example.com\<close> and title \<^verbatim>\<open>title\<close>; the cleaned text is two
  line feeds followed by the body line; the second pass renders two empty paragraphs and
  the body paragraph, and \<open>markdown\<close> returns this followed by the dump of the table.
\<close>

theorem reference_body_rendering:
  "first_pass
     (''[ref]: http://example.com '' @ [DQUOTE] @ ''title'' @ [DQUOTE] @ ''\<newline>\<newline>Body.\<newline>'')
     0 [] []
   = (''\<newline>\<newline>Body.\<newline>'',
      [\<lparr> lr_id = ''ref'', lr_link = ''http://example.com'', lr_title = Some ''title'' \<rparr>])
   \<and> cleaned (''[ref]: http://example.com '' @ [DQUOTE] @ ''title'' @ [DQUOTE] @ ''\<newline>\<newline>Body.\<newline>'')
     = ''\<newline>\<newline>Body.\<newline>''
   \<and> fst (parse_block [] mkd_xhtml ''\<newline>\<newline>Body.\<newline>'' 0 (length ''\<newline>\<newline>Body.\<newline>''))
     = ''<p></p>\<newline>\<newline><p></p>\<newline>\<newline><p>Body.</p>\<newline>''
   \<and> markdown []
       (''[ref]: http://example.com '' @ [DQUOTE] @ ''title'' @ [DQUOTE] @ ''\<newline>\<newline>Body.\<newline>'')
       mkd_xhtml flags
     = ''<p></p>\<newline>\<newline><p></p>\<newline>\<newline><p>Body.</p>\<newline>''
         @ dump_refs [\<lparr> lr_id = ''ref'', lr_link = ''http://example.com'', lr_title = Some ''title'' \<rparr>]"
  by code_simp

text \<open>
  Claim C3. The claim has the run of line terminators emit a line feed for a line feed
  unless another line feed follows, and nothing for a carriage return. The test of lines
  291-293 is a disjunction: a line feed always emits one, and a carriage return emits one
  when a byte follows it that is not a line feed. As stated the claim fails, on a lone
  carriage return between two letters and on two line feeds in a row:
\<close>

theorem newline_run_counterexample:
  "newline_run (''a'' @ [CR] @ ''b'') 1 ''a'' = (''a\<newline>'', 2)
   \<and> spec_newline_run (''a'' @ [CR] @ ''b'') 1 ''a'' = (''a'', 2)
   \<and> newline_run ''a\<newline>\<newline>b'' 1 ''a'' = (''a\<newline>\<newline>'', 3)
   \<and> spec_newline_run ''a\<newline>\<newline>b'' 1 ''a'' = (''a\<newline>'', 3)
   \<and> cleaned (''a'' @ [CR] @ ''b'') = ''a\<newline>b\<newline>''
   \<and> cleaned ''a\<newline>\<newline>b'' = ''a\<newline>\<newline>b\<newline>''"
  by code_simp

text \<open>
  Claim C3, amended: the run of line feeds and carriage returns from offset \<open>en\<close> is
  consumed whole, and the text gets one line feed for every line feed of the run and one
  for every carriage return of the run that is followed by a byte other than a line
  feed; a carriage return before a line feed or at the end of the input adds nothing.
\<close>

theorem newline_run_emits:
  "newline_run ib en tx =
     (tx @ concat (map (\<lambda>j. if ib ! j = LF \<or> (j + 1 < length ib \<and> ib ! (j + 1) \<noteq> LF)
                           then [LF] else [])
                    [en ..< scan (\<lambda>c. c = LF \<or> c = CR) ib en (length ib)]),
      scan (\<lambda>c. c = LF \<or> c = CR) ib en (length ib))"
proof (induction ib en tx rule: newline_run.induct)
  case (1 ib en tx)
  let ?P = "\<lambda>c. c = LF \<or> c = CR"
  show ?case
  proof (cases "en < length ib \<and> ?P (ib ! en)")
    case True
    have s: "scan ?P ib en (length ib) = scan ?P ib (en + 1) (length ib)"
      using True by (subst scan.simps) simp
    have lt: "en < scan ?P ib (en + 1) (length ib)"
      using scan_ge [of "en + 1" ?P ib "length ib"] by simp
    show ?thesis
      using True 1 [OF True] lt
      by (subst newline_run.simps) (simp add: s upt_conv_Cons)
  next
    case False
    then have "scan ?P ib en (length ib) = en" by (subst scan.simps) auto
    then show ?thesis using False by (subst newline_run.simps) auto
  qed
qed

text \<open>
  Claim C4. The claim has the view end before the first empty line, so that none of the
  bytes of that line are in it. The loop of \<open>parse_paragraph\<close> leaves \<^verbatim>\<open>end\<close> after
  the empty line, line 239 takes this for the size of the view, and lines 240-241 cut
  line feeds only: spaces and tabs of the empty line stay in the view. As stated the
  claim fails on the region \<^verbatim>\<open>a\<close>, line feed, space, line feed, \<^verbatim>\<open>b\<close>, line feed:
\<close>

theorem paragraph_view_counterexample:
  "parse_paragraph [] mkd_xhtml ''a\<newline> \<newline>b\<newline>'' 0 6 = (xhtml_paragraph [] (Some ''a\<newline> ''), 4)
   \<and> spec_paragraph_view ''a\<newline> \<newline>b\<newline>'' = ''a''
   \<and> xhtml_paragraph [] (Some ''a\<newline> '') \<noteq> xhtml_paragraph [] (Some ''a'')"
  by code_simp

text \<open>
  Claim C4, amended: on any region that lies in the store, the view handed to the
  paragraph callback is the region from offset 0 up to and including the first empty
  line (to the end of the region when there is none), with its trailing line feeds cut;
  the returned count is the offset after that empty line. When the first empty line is a
  line feed alone, or there is no empty line, this is the view of the claim: the region
  up to the first empty line, with its trailing line feeds cut.
\<close>

theorem parse_paragraph_view:
  assumes "data + sz \<le> length mem"
  shows "parse_paragraph ob rndr mem data sz
    = (paragraph_cb rndr ob (Some (paragraph_view (take sz (drop data mem)))),
       first_empty_end (take sz (drop data mem)))
    \<and> (first_empty_start (take sz (drop data mem)) = sz
         \<or> mem ! (data + first_empty_start (take sz (drop data mem))) = LF
       \<longrightarrow> paragraph_view (take sz (drop data mem)) = spec_paragraph_view (take sz (drop data mem)))"
proof -
  let ?r = "take sz (drop data mem)"
  have l: "length ?r = sz" using assms by simp
  have n: "?r ! first_empty_start ?r = mem ! (data + first_empty_start ?r)"
    if "first_empty_start ?r \<noteq> sz"
    using that first_empty_start_le [of ?r] assms by simp
  have "paragraph_view ?r = spec_paragraph_view ?r"
    if "first_empty_start ?r = sz \<or> mem ! (data + first_empty_start ?r) = LF"
  proof (cases "first_empty_start ?r = sz")
    case True
    then show ?thesis using l by (intro paragraph_view_spec) simp
  next
    case False
    then have "?r ! first_empty_start ?r = LF" using that n by simp
    then show ?thesis by (intro paragraph_view_spec) simp
  qed
  then show ?thesis
    using parse_paragraph_list [OF assms, of ob rndr] by blast
qed

theorem parse_paragraph_view_witness:
  "0 + 6 \<le> length ''a\<newline> \<newline>b\<newline>''
   \<and> parse_paragraph [] mkd_xhtml ''a\<newline> \<newline>b\<newline>'' 0 6 = (''<p>a\<newline> </p>\<newline>'', 4)
   \<and> 0 + 5 \<le> length ''a\<newline>\<newline>b\<newline>''
   \<and> ''a\<newline>\<newline>b\<newline>'' ! (0 + first_empty_start (take 5 (drop 0 ''a\<newline>\<newline>b\<newline>''))) = LF
   \<and> paragraph_view (take 5 (drop 0 ''a\<newline>\<newline>b\<newline>'')) = ''a''
   \<and> spec_paragraph_view (take 5 (drop 0 ''a\<newline>\<newline>b\<newline>'')) = ''a''
   \<and> parse_paragraph [] mkd_xhtml ''a\<newline>\<newline>b\<newline>'' 0 5 = (''<p>a</p>\<newline>'', 3)"
proof -
  have h: "0 + 6 \<le> length ''a\<newline> \<newline>b\<newline>''" by simp
  have v: "paragraph_view (take 6 (drop 0 ''a\<newline> \<newline>b\<newline>'')) = ''a\<newline> ''" by code_simp
  have n: "first_empty_end (take 6 (drop 0 ''a\<newline> \<newline>b\<newline>'')) = 4" by code_simp
  have x: "paragraph_cb mkd_xhtml [] (Some ''a\<newline> '') = ''<p>a\<newline> </p>\<newline>''" by code_simp
  have h': "0 + 5 \<le> length ''a\<newline>\<newline>b\<newline>''" by simp
  have s': "''a\<newline>\<newline>b\<newline>'' ! (0 + first_empty_start (take 5 (drop 0 ''a\<newline>\<newline>b\<newline>''))) = LF"
    by code_simp
  have v': "spec_paragraph_view (take 5 (drop 0 ''a\<newline>\<newline>b\<newline>'')) = ''a''" by code_simp
  have n': "first_empty_end (take 5 (drop 0 ''a\<newline>\<newline>b\<newline>'')) = 3" by code_simp
  have x': "paragraph_cb mkd_xhtml [] (Some ''a'') = ''<p>a</p>\<newline>''" by code_simp
  have 1: "parse_paragraph [] mkd_xhtml ''a\<newline> \<newline>b\<newline>'' 0 6 = (''<p>a\<newline> </p>\<newline>'', 4)"
    using parse_paragraph_view [OF h, of "[]" mkd_xhtml] unfolding v n x by simp
  have 2: "paragraph_view (take 5 (drop 0 ''a\<newline>\<newline>b\<newline>'')) = ''a''"
    using parse_paragraph_view [OF h', of "[]" mkd_xhtml] s' unfolding v' by blast
  have 3: "parse_paragraph [] mkd_xhtml ''a\<newline>\<newline>b\<newline>'' 0 5 = (''<p>a</p>\<newline>'', 3)"
    using parse_paragraph_view [OF h', of "[]" mkd_xhtml] unfolding 2 n' x' by simp
  show ?thesis using h 1 h' s' 2 v' 3 by simp
qed

text \<open>
  Claim C5. The scanner is to accept up to three leading spaces, as the comment of line
  81 has it. The loop of line 82 stops at \<open>beg + 3\<close> and line 83 then rejects that
  offset, so a definition indented by three spaces is refused (as every region that
  starts with three spaces is, by \<open>is_ref_three_spaces\<close>), while the same definition
  indented by two is accepted.
\<close>

theorem three_leading_spaces_rejected:
  "is_ref ''   [a]: b\<newline>'' 0 10 = None
   \<and> is_ref ''  [a]: b\<newline>'' 0 9 = Some (8, \<lparr> lr_id = ''a'', lr_link = ''b'', lr_title = None \<rparr>)"
  by code_simp

text \<open>
  Claim C6. The claim has a single blank line render to nothing. The first pass copies
  the line into the text, and \<open>parse_block\<close> has no step that skips blank lines: it hands
  the line to \<open>parse_paragraph\<close>, which calls the paragraph callback with what is left of
  the line once its line feed is cut. As stated the claim fails, on a single line feed:
\<close>

theorem blank_line_counterexample:
  "cleaned ''\<newline>'' = ''\<newline>''
   \<and> fst (parse_block [] mkd_xhtml ''\<newline>'' 0 (length ''\<newline>'')) = ''<p></p>\<newline>''
   \<and> markdown [] ''\<newline>'' mkd_xhtml 0 = ''<p></p>\<newline>'' @ dump_refs []
   \<and> markdown [] ''\<newline>'' mkd_xhtml 0 \<noteq> dump_refs []
   \<and> markdown [] ''\<newline>'' mkd_xhtml 0 \<noteq> []"
  by code_simp

text \<open>
  Claim C6, amended: for an input that is a run of spaces and tabs (possibly none)
  followed by a line feed, and any renderer, the paragraph callback is called once, on
  the run of spaces and tabs, and the output is what it returns followed by the dump of
  the empty reference table.
\<close>

theorem blank_line_rendering:
  assumes "list_all blank ws"
  shows "markdown ob (ws @ [LF]) rndr flags = paragraph_cb rndr ob (Some ws) @ dump_refs []"
  using blank_line_first_pass [OF assms] blank_line_block [OF assms, of ob rndr]
  by (cases "parse_block ob rndr (ws @ [LF]) 0 (Suc (length ws))")
    (simp add: markdown_def final_newline_def)

theorem blank_line_rendering_witness:
  "list_all blank [SP, TAB]
   \<and> markdown [] [SP, TAB, LF] mkd_xhtml 0 = ''<p>'' @ [SP, TAB] @ ''</p>\<newline>(refs)\<newline>''"
proof -
  have h: "list_all blank [SP, TAB]" by (simp add: blank_def)
  have x: "paragraph_cb mkd_xhtml [] (Some [SP, TAB]) @ dump_refs []
      = ''<p>'' @ [SP, TAB] @ ''</p>\<newline>(refs)\<newline>''"
    by code_simp
  show ?thesis
    using h blank_line_rendering [OF h, of "[]" mkd_xhtml 0] unfolding x by simp
qed

text \<open>
  Claim C7. The cleaned text holds no carriage return, and when it is not empty its last
  byte is a line feed.
\<close>

theorem cleaned_no_cr_ends_lf:
  "CR \<notin> set (cleaned ib) \<and> (cleaned ib \<noteq> [] \<longrightarrow> last (cleaned ib) = LF)"
proof -
  obtain t r where f: "first_pass ib 0 [] [] = (t, r)" by (cases "first_pass ib 0 [] []")
  have t: "CR \<notin> set t" using first_pass_no_cr [of "[]" ib 0 "[]"] f by simp
  have c: "cleaned ib = (if t = [] then t else final_newline t)"
    by (simp add: cleaned_def f)
  show ?thesis
  proof (cases "t = []")
    case True
    then show ?thesis using c by simp
  next
    case False
    then have "last t \<in> set t" by simp
    then have "last t \<noteq> CR" using t by metis
    then show ?thesis using c t False by (auto simp: final_newline_def)
  qed
qed

theorem cleaned_no_cr_ends_lf_witness:
  "cleaned (''Text'' @ [CR] @ ''\<newline>with CRLF'' @ [CR] @ ''\<newline>'') = ''Text\<newline>with CRLF\<newline>''
   \<and> CR \<notin> set (cleaned (''Text'' @ [CR] @ ''\<newline>with CRLF'' @ [CR] @ ''\<newline>''))
   \<and> cleaned (''Text'' @ [CR] @ ''\<newline>with CRLF'' @ [CR] @ ''\<newline>'') \<noteq> []
   \<and> last (cleaned (''Text'' @ [CR] @ ''\<newline>with CRLF'' @ [CR] @ ''\<newline>'')) = LF"
proof -
  have e: "cleaned (''Text'' @ [CR] @ ''\<newline>with CRLF'' @ [CR] @ ''\<newline>'') = ''Text\<newline>with CRLF\<newline>''"
    by code_simp
  show ?thesis
    using cleaned_no_cr_ends_lf [of "''Text'' @ [CR] @ ''\<newline>with CRLF'' @ [CR] @ ''\<newline>''"]
    unfolding e by simp
qed



text \<open>
  Claim C9. Every \<^verbatim>\<open>memmove\<close> of the loop of \<open>parse_blockquote\<close> on the region
  \<open>data[0 .. sz)\<close> writes inside the region: its destination \<open>dst\<close> is not before
  \<open>data\<close> and \<open>dst + n\<close> is not after \<open>data + sz\<close>. The bytes it reads are inside the
  region too, at or after the destination, and the working buffer the loop leaves lies
  inside the region. When the region lies in the store, the loop leaves the store with
  its length and with every byte outside the region as it was.
\<close>

theorem compaction_stays_in_region:
  assumes "bq_loop mem data sz 0 0 None 0 [] = (mem', en', work_data, work_size, moves)"
    and "(dst, src, n) \<in> set moves"
  shows "data \<le> dst \<and> dst + n \<le> data + sz \<and> dst \<le> src \<and> src + n \<le> data + sz
    \<and> (case work_data of None \<Rightarrow> work_size = 0
        | Some w \<Rightarrow> data \<le> w \<and> w + work_size \<le> data + sz)
    \<and> (data + sz \<le> length mem \<longrightarrow> same_outside data sz mem mem')"
proof -
  have i: "en' \<le> sz" "bq_inv data 0 en' work_data work_size" "list_all (move_ok data sz) moves"
    using bq_loop_inv [OF assms(1) refl _ _ bq_inv_init [of data 0]] by simp_all
  have "move_ok data sz (dst, src, n)" using i(3) assms(2) by (auto simp: list_all_iff)
  moreover have "same_outside data sz mem mem'" if "data + sz \<le> length mem"
    using bq_loop_frame [OF assms(1) refl _ bq_inv_init [of data 0] that] by simp
  ultimately show ?thesis
    using i(1,2) by (auto simp: move_ok_def bq_inv_def split: option.splits)
qed

theorem compaction_stays_in_region_witness:
  "bq_loop ''#> a\<newline>> b\<newline>#'' 1 8 0 0 None 0 []
     = (''#> a\<newline>b\<newline>b\<newline>#'', 8, Some 3, 4, [(5, 7, 2)])
   \<and> (5, 7, 2) \<in> set [(5, 7, 2::nat)]
   \<and> (1::nat) \<le> 5 \<and> (5::nat) + 2 \<le> 1 + 8 \<and> (1::nat) + 8 \<le> length ''#> a\<newline>> b\<newline>#''
   \<and> same_outside 1 8 ''#> a\<newline>> b\<newline>#'' ''#> a\<newline>b\<newline>b\<newline>#''"
proof -
  have b: "bq_loop ''#> a\<newline>> b\<newline>#'' 1 8 0 0 None 0 []
     = (''#> a\<newline>b\<newline>b\<newline>#'', 8, Some 3, 4, [(5, 7, 2)])"
    by code_simp
  have m: "(5, 7, 2) \<in> set [(5, 7, 2::nat)]" by simp
  show ?thesis
    using b m compaction_stays_in_region [OF b m] by simp
qed




end
